theory Spec2Isabelle
  imports Main "HOL-Library.Word" "HOL-Library.Multiset"
begin

unbundle bit_operations_syntax

section \<open>Basic types (types.hpp, as far as position.cpp and move\_order.cpp use them)\<close>

type_synonym Bitboard = "64 word"
type_synonym Hash = "64 word"
type_synonym Square = int
type_synonym Depth = int

datatype Turn = WHITE | BLACK

datatype PieceType = PAWN | KNIGHT | BISHOP | ROOK | QUEEN | KING | PIECE_NONE

datatype Piece = NO_PIECE | Pc PieceType Turn

datatype CastleSide = KINGSIDE | QUEENSIDE | NO_SIDE

text \<open>\<open>~turn\<close> of the source.\<close>

fun flip :: "Turn \<Rightarrow> Turn" where
  "flip WHITE = BLACK"
| "flip BLACK = WHITE"

section \<open>Moves (move.hpp)\<close>

text \<open>
  Modelled from the spec: move.hpp is absent. A move packs \<open>from:6\<close>, \<open>to:6\<close> and
  \<open>flags:4\<close>; the sixteen flag values are the twelve move kinds, the four promotion
  captures and the two reserved invalid patterns.
\<close>

datatype MoveType =
    QUIET | DOUBLE_PAWN_PUSH | KING_CASTLE | QUEEN_CASTLE | CAPTURE | EP_CAPTURE
  | INVALID_1 | INVALID_2
  | KNIGHT_PROMO | BISHOP_PROMO | ROOK_PROMO | QUEEN_PROMO
  | KNIGHT_PROMO_CAPTURE | BISHOP_PROMO_CAPTURE | ROOK_PROMO_CAPTURE | QUEEN_PROMO_CAPTURE

record Move =
  from_bits :: "6 word"
  to_bits :: "6 word"
  move_type :: MoveType

definition move_from :: "Move \<Rightarrow> Square" where
  "move_from m = uint (from_bits m)"

definition move_to :: "Move \<Rightarrow> Square" where
  "move_to m = uint (to_bits m)"

definition is_capture :: "Move \<Rightarrow> bool" where
  "is_capture m = (move_type m \<in> {CAPTURE, EP_CAPTURE, KNIGHT_PROMO_CAPTURE,
     BISHOP_PROMO_CAPTURE, ROOK_PROMO_CAPTURE, QUEEN_PROMO_CAPTURE})"

definition is_ep_capture :: "Move \<Rightarrow> bool" where
  "is_ep_capture m = (move_type m = EP_CAPTURE)"

definition is_double_pawn_push :: "Move \<Rightarrow> bool" where
  "is_double_pawn_push m = (move_type m = DOUBLE_PAWN_PUSH)"

definition is_castle :: "Move \<Rightarrow> bool" where
  "is_castle m = (move_type m = KING_CASTLE \<or> move_type m = QUEEN_CASTLE)"

definition is_promotion :: "Move \<Rightarrow> bool" where
  "is_promotion m = (move_type m \<in> {KNIGHT_PROMO, BISHOP_PROMO, ROOK_PROMO, QUEEN_PROMO,
     KNIGHT_PROMO_CAPTURE, BISHOP_PROMO_CAPTURE, ROOK_PROMO_CAPTURE, QUEEN_PROMO_CAPTURE})"

fun promo_piece_of :: "MoveType \<Rightarrow> PieceType" where
  "promo_piece_of KNIGHT_PROMO = KNIGHT"
| "promo_piece_of KNIGHT_PROMO_CAPTURE = KNIGHT"
| "promo_piece_of BISHOP_PROMO = BISHOP"
| "promo_piece_of BISHOP_PROMO_CAPTURE = BISHOP"
| "promo_piece_of ROOK_PROMO = ROOK"
| "promo_piece_of ROOK_PROMO_CAPTURE = ROOK"
| "promo_piece_of QUEEN_PROMO = QUEEN"
| "promo_piece_of QUEEN_PROMO_CAPTURE = QUEEN"
| "promo_piece_of _ = PIECE_NONE"

definition promo_piece :: "Move \<Rightarrow> PieceType" where
  "promo_piece m = promo_piece_of (move_type m)"

text \<open>
  Modelled from the spec: \<open>MOVE_NULL\<close> is a distinguished value; here the all-zero
  pattern (from a1 to a1, quiet).
\<close>

definition MOVE_NULL :: Move where
  "MOVE_NULL = \<lparr>from_bits = 0, to_bits = 0, move_type = QUIET\<rparr>"

section \<open>Squares and bitboards (types.hpp, bitboard.hpp)\<close>

text \<open>
  Modelled from the spec: squares are 0..63 with \<open>file = sq & 7\<close> and
  \<open>rank = sq >> 3\<close>; \<open>SQUARE_NULL\<close> is a sentinel outside 0..63. A bitboard is a
  64-bit set of squares with test, set and reset of a bit, popcount and the index of
  the lowest set bit.
\<close>

definition SQUARE_NULL :: Square where "SQUARE_NULL = 64"
definition SQUARE_A1 :: Square where "SQUARE_A1 = 0"
definition SQUARE_H1 :: Square where "SQUARE_H1 = 7"
definition SQUARE_A8 :: Square where "SQUARE_A8 = 56"
definition SQUARE_H8 :: Square where "SQUARE_H8 = 63"
definition NUM_SQUARES :: int where "NUM_SQUARES = 64"

definition file_of :: "Square \<Rightarrow> int" where
  "file_of sq = sq mod 8"

definition rank_of :: "Square \<Rightarrow> int" where
  "rank_of sq = sq div 8"

definition make_square :: "int \<Rightarrow> int \<Rightarrow> Square" where
  "make_square rank file = rank * 8 + file"

definition bb_test :: "Bitboard \<Rightarrow> Square \<Rightarrow> bool" where
  "bb_test bb sq = bit bb (nat sq)"

definition bb_set :: "Bitboard \<Rightarrow> Square \<Rightarrow> Bitboard" where
  "bb_set bb sq = set_bit (nat sq) bb"

definition bb_reset :: "Bitboard \<Rightarrow> Square \<Rightarrow> Bitboard" where
  "bb_reset bb sq = unset_bit (nat sq) bb"

definition from_square :: "Square \<Rightarrow> Bitboard" where
  "from_square sq = push_bit (nat sq) 1"

definition bb_squares :: "Bitboard \<Rightarrow> nat list" where
  "bb_squares bb = filter (bit bb) [0..<64]"

definition bb_count :: "Bitboard \<Rightarrow> int" where
  "bb_count bb = int (length (bb_squares bb))"

definition bitscan_forward :: "Bitboard \<Rightarrow> Square" where
  "bitscan_forward bb = int (length (takeWhile (\<lambda>i. \<not> bit bb i) [0..<64]))"

text \<open>
  The loop \<open>while (bb) f(bb.bitscan_forward_reset())\<close> of \<open>generate_hash\<close> and
  \<open>is_valid\<close>: take the lowest set bit, clear it, continue until the board is empty.
\<close>

lemma bitscan_forward_props:
  assumes "bb \<noteq> 0"
  shows "0 \<le> bitscan_forward bb" "bitscan_forward bb < 64" "bit bb (nat (bitscan_forward bb))"
    "\<And>i. i < nat (bitscan_forward bb) \<Longrightarrow> \<not> bit bb i"
proof -
  let ?P = "\<lambda>i. \<not> bit bb i"
  let ?n = "length (takeWhile ?P [0..<64])"
  from assms obtain k where k: "bit bb k" by (auto simp: bit_eq_iff)
  then have k64: "k < 64" by (auto dest: bit_imp_le_length)
  have "?n \<noteq> 64"
  proof
    assume "?n = 64"
    then have "takeWhile ?P [0..<64] = [0..<64]"
      using takeWhile_eq_take[of ?P "[0..<64]"] by simp
    then have "\<forall>x\<in>set [0..<64]. ?P x" by (simp only: takeWhile_eq_all_conv)
    with k k64 show False by simp
  qed
  moreover have "?n \<le> 64" using length_takeWhile_le[of ?P "[0..<64]"] by simp
  ultimately have n64: "?n < 64" by simp
  have "\<not> ?P ([0..<64] ! ?n)"
    using n64 by (intro nth_length_takeWhile) simp
  then have bn: "bit bb ?n" using n64 by simp
  show "0 \<le> bitscan_forward bb" by (simp add: bitscan_forward_def)
  show "bitscan_forward bb < 64" using n64 by (simp add: bitscan_forward_def)
  show "bit bb (nat (bitscan_forward bb))" using bn by (simp add: bitscan_forward_def)
  fix i assume "i < nat (bitscan_forward bb)"
  then have i: "i < ?n" by (simp add: bitscan_forward_def)
  then have "takeWhile ?P [0..<64] ! i \<in> set (takeWhile ?P [0..<64])" by simp
  then have "?P (takeWhile ?P [0..<64] ! i)" by (blast dest: set_takeWhileD)
  then show "\<not> bit bb i" using i n64 by (simp add: takeWhile_nth)
qed

lemma bb_reset_count:
  assumes "bb \<noteq> 0"
  shows "length (bb_squares (bb_reset bb (bitscan_forward bb))) < length (bb_squares bb)"
proof -
  let ?n = "nat (bitscan_forward bb)"
  have mem: "?n \<in> set (bb_squares bb)"
    using bitscan_forward_props[OF assms] by (auto simp: bb_squares_def)
  have "bb_squares (bb_reset bb (bitscan_forward bb)) = filter (\<lambda>i. i \<noteq> ?n) (bb_squares bb)"
    by (auto simp: bb_squares_def bb_reset_def bit_unset_bit_iff intro: filter_cong)
  then show ?thesis using mem by (simp add: length_filter_less)
qed

function bb_fold :: "(Square \<Rightarrow> 'a \<Rightarrow> 'a) \<Rightarrow> Bitboard \<Rightarrow> 'a \<Rightarrow> 'a" where
  "bb_fold f bb acc =
     (if bb = 0 then acc
      else let sq = bitscan_forward bb in bb_fold f (bb_reset bb sq) (f sq acc))"
  by pat_completeness auto
termination
  by (relation "measure (\<lambda>(f, bb, acc). length (bb_squares bb))") (auto simp: bb_reset_count)

declare bb_fold.simps [simp del]

section \<open>Tables (zobrist.hpp, piece\_square\_tables.hpp, bitboard.hpp)\<close>

text \<open>
  The Zobrist keys, the material and piece-square tables, the phase weights and the
  attack tables are constants of headers that are not part of the sources at hand; they
  are taken as parameters, so every theorem holds for every choice of them.
  \<open>pawn_attacks c sq\<close> is the set of squares a pawn of colour \<open>c\<close> on \<open>sq\<close> attacks.
\<close>

record Env =
  zobrist_piece_turn_square :: "PieceType \<Rightarrow> Turn \<Rightarrow> Square \<Rightarrow> Hash"
  zobrist_black_move :: Hash
  zobrist_ep_file :: "int \<Rightarrow> Hash"
  zobrist_castle_side_turn :: "CastleSide \<Rightarrow> Turn \<Rightarrow> Hash"
  piece_value :: "PieceType \<Rightarrow> int \<times> int"
  piece_square :: "PieceType \<Rightarrow> Square \<Rightarrow> Turn \<Rightarrow> int \<times> int"
  Phases_Total :: int
  Phases_Pieces :: "PieceType \<Rightarrow> int"
  pawn_attacks :: "Turn \<Rightarrow> Square \<Rightarrow> Bitboard"
  knight_attacks :: "Square \<Rightarrow> Bitboard"
  king_attacks :: "Square \<Rightarrow> Bitboard"
  bishop_attacks :: "Square \<Rightarrow> Bitboard \<Rightarrow> Bitboard"
  rook_attacks :: "Square \<Rightarrow> Bitboard \<Rightarrow> Bitboard"

text \<open>\<open>MixedScore\<close>: a (middlegame, endgame) pair with componentwise arithmetic.\<close>

definition ms_add :: "int \<times> int \<Rightarrow> int \<times> int \<Rightarrow> int \<times> int" where
  "ms_add a b = (fst a + fst b, snd a + snd b)"

definition ms_mul :: "int \<times> int \<Rightarrow> int \<Rightarrow> int \<times> int" where
  "ms_mul a k = (fst a * k, snd a * k)"

fun turn_to_color :: "Turn \<Rightarrow> int" where
  "turn_to_color WHITE = 1"
| "turn_to_color BLACK = - 1"

fun turn_index :: "Turn \<Rightarrow> int" where
  "turn_index WHITE = 0"
| "turn_index BLACK = 1"

fun get_piece_type :: "Piece \<Rightarrow> PieceType" where
  "get_piece_type NO_PIECE = PIECE_NONE"
| "get_piece_type (Pc pt t) = pt"

fun get_turn :: "Piece \<Rightarrow> Turn" where
  "get_turn NO_PIECE = WHITE"
| "get_turn (Pc pt t) = t"

section \<open>Board (position.cpp)\<close>

record Board =
  m_pieces :: "PieceType \<Rightarrow> Turn \<Rightarrow> Bitboard"
  m_board_pieces :: "Square \<Rightarrow> Piece"
  m_hash :: Hash
  m_psq :: "int \<times> int"
  m_phase :: "8 word"
  m_turn :: Turn
  m_castling_rights :: "CastleSide \<Rightarrow> Turn \<Rightarrow> bool"
  m_enpassant_square :: Square
  m_half_move_clock :: int
  m_full_move_clock :: int
  m_checkers :: Bitboard

text \<open>
  \<open>Board::operator==\<close>: the hash, then side to move and en-passant square, then the four
  castling rights, then the twelve piece bitboards; the first difference returns false.
\<close>

definition board_eq :: "Board \<Rightarrow> Board \<Rightarrow> bool" where
  "board_eq a b =
     (if m_hash a \<noteq> m_hash b then False
      else if m_turn a \<noteq> m_turn b \<or> m_enpassant_square a \<noteq> m_enpassant_square b then False
      else if list_ex (\<lambda>side. list_ex (\<lambda>turn.
                m_castling_rights a side turn \<noteq> m_castling_rights b side turn) [WHITE, BLACK])
              [KINGSIDE, QUEENSIDE] then False
      else if list_ex (\<lambda>piece. list_ex (\<lambda>turn.
                \<not> (m_pieces a piece turn = m_pieces b piece turn)) [WHITE, BLACK])
              [PAWN, KNIGHT, BISHOP, ROOK, QUEEN, KING] then False
      else True)"


subsection \<open>Accessors and piece-level primitives (position.hpp)\<close>

text \<open>
  Modelled from the spec: position.hpp, with the inline members of \<open>Board\<close>, is absent.
  \<open>get_piece_at\<close> reads the mailbox; \<open>get_pieces<TURN>()\<close> is the union of the six
  bitboards of a colour. Every piece-level primitive (\<open>set_piece\<close>, \<open>pop_piece\<close>,
  \<open>move_piece\<close>) updates bitboard and mailbox, XORs the Zobrist term, adjusts the
  material and piece-square accumulator by \<open>piece_value[pt] + piece_square(pt, sq, c)\<close>
  signed by colour, and updates the phase by \<open>Phases::Pieces[pt]\<close> (an 8-bit counter
  starting at \<open>Phases::Total\<close>). \<open>set_castling<SET>\<close> writes a castling right and XORs
  its Zobrist term when the right changes.
\<close>

definition get_piece_at :: "Board \<Rightarrow> Square \<Rightarrow> PieceType" where
  "get_piece_at b sq = get_piece_type (m_board_pieces b sq)"

definition get_pieces_turn :: "Board \<Rightarrow> Turn \<Rightarrow> Bitboard" where
  "get_pieces_turn b t =
     m_pieces b PAWN t OR m_pieces b KNIGHT t OR m_pieces b BISHOP t
       OR m_pieces b ROOK t OR m_pieces b QUEEN t OR m_pieces b KING t"

definition get_pieces :: "Board \<Rightarrow> Bitboard" where
  "get_pieces b = get_pieces_turn b WHITE OR get_pieces_turn b BLACK"

definition piece_term :: "Env \<Rightarrow> PieceType \<Rightarrow> Square \<Rightarrow> Turn \<Rightarrow> int \<times> int" where
  "piece_term E piece sq turn =
     ms_mul (ms_add (piece_value E piece) (piece_square E piece sq turn)) (turn_to_color turn)"

definition set_piece :: "Env \<Rightarrow> PieceType \<Rightarrow> Turn \<Rightarrow> Square \<Rightarrow> Board \<Rightarrow> Board" where
  "set_piece E piece turn sq b = b
     \<lparr> m_pieces := (m_pieces b)(piece := (m_pieces b piece)(turn := bb_set (m_pieces b piece turn) sq)),
       m_board_pieces := (m_board_pieces b)(sq := Pc piece turn),
       m_hash := m_hash b XOR zobrist_piece_turn_square E piece turn sq,
       m_psq := ms_add (m_psq b) (piece_term E piece sq turn),
       m_phase := m_phase b - word_of_int (Phases_Pieces E piece) \<rparr>"

definition pop_piece :: "Env \<Rightarrow> PieceType \<Rightarrow> Turn \<Rightarrow> Square \<Rightarrow> Board \<Rightarrow> Board" where
  "pop_piece E piece turn sq b = b
     \<lparr> m_pieces := (m_pieces b)(piece := (m_pieces b piece)(turn := bb_reset (m_pieces b piece turn) sq)),
       m_board_pieces := (m_board_pieces b)(sq := NO_PIECE),
       m_hash := m_hash b XOR zobrist_piece_turn_square E piece turn sq,
       m_psq := ms_add (m_psq b) (ms_mul (piece_term E piece sq turn) (- 1)),
       m_phase := m_phase b + word_of_int (Phases_Pieces E piece) \<rparr>"

definition move_piece :: "Env \<Rightarrow> PieceType \<Rightarrow> Turn \<Rightarrow> Square \<Rightarrow> Square \<Rightarrow> Board \<Rightarrow> Board" where
  "move_piece E piece turn sq_from sq_to b = b
     \<lparr> m_pieces := (m_pieces b)(piece := (m_pieces b piece)
          (turn := bb_set (bb_reset (m_pieces b piece turn) sq_from) sq_to)),
       m_board_pieces := (m_board_pieces b)(sq_from := NO_PIECE, sq_to := Pc piece turn),
       m_hash := m_hash b XOR zobrist_piece_turn_square E piece turn sq_from
                          XOR zobrist_piece_turn_square E piece turn sq_to,
       m_psq := ms_add (ms_add (m_psq b) (ms_mul (piece_term E piece sq_from turn) (- 1)))
                  (piece_term E piece sq_to turn) \<rparr>"

definition set_castling :: "Env \<Rightarrow> bool \<Rightarrow> CastleSide \<Rightarrow> Turn \<Rightarrow> Board \<Rightarrow> Board" where
  "set_castling E SET side turn b =
     (if m_castling_rights b side turn \<noteq> SET
      then b \<lparr> m_castling_rights :=
                 (m_castling_rights b)(side := (m_castling_rights b side)(turn := SET)),
               m_hash := m_hash b XOR zobrist_castle_side_turn E side turn \<rparr>
      else b)"

subsection \<open>Attackers and checkers\<close>

text \<open>
  Modelled from the spec: the template \<open>attackers<TURN>\<close> and \<open>update_checkers<TURN>\<close>
  are in the absent header. \<open>attackers(sq, occ, side)\<close> is the pawns of \<open>side\<close> attacking
  \<open>sq\<close>, united with the knight attacks, the king attacks, the bishop and queen
  diagonal attacks through \<open>occ\<close> and the rook and queen orthogonal attacks through
  \<open>occ\<close>; \<open>update_checkers\<close> computes \<open>attackers(our_king, all_occ, enemy)\<close>.
\<close>

definition attackers :: "Env \<Rightarrow> Board \<Rightarrow> Square \<Rightarrow> Bitboard \<Rightarrow> Turn \<Rightarrow> Bitboard" where
  "attackers E b sq occupancy turn =
     (pawn_attacks E (flip turn) sq AND m_pieces b PAWN turn)
     OR (knight_attacks E sq AND m_pieces b KNIGHT turn)
     OR (king_attacks E sq AND m_pieces b KING turn)
     OR (bishop_attacks E sq occupancy AND (m_pieces b BISHOP turn OR m_pieces b QUEEN turn))
     OR (rook_attacks E sq occupancy AND (m_pieces b ROOK turn OR m_pieces b QUEEN turn))"

definition update_checkers :: "Env \<Rightarrow> Board \<Rightarrow> Board" where
  "update_checkers E b =
     b \<lparr> m_checkers := attackers E b (bitscan_forward (m_pieces b KING (m_turn b)))
                         (get_pieces b) (flip (m_turn b)) \<rparr>"

subsection \<open>\<open>Board::generate_hash\<close>\<close>

definition piece_types :: "PieceType list" where
  "piece_types = [PAWN, KNIGHT, BISHOP, ROOK, QUEEN, KING]"

definition generate_hash :: "Env \<Rightarrow> Board \<Rightarrow> Hash" where
  "generate_hash E b =
     (let hash = 0;
          hash = fold (\<lambda>turn. fold (\<lambda>piece.
                   bb_fold (\<lambda>sq h. h XOR zobrist_piece_turn_square E piece turn sq)
                     (m_pieces b piece turn)) piece_types) [WHITE, BLACK] hash;
          hash = (if m_turn b = BLACK then hash XOR zobrist_black_move E else hash);
          hash = (if m_enpassant_square b \<noteq> SQUARE_NULL
                  then hash XOR zobrist_ep_file E (file_of (m_enpassant_square b)) else hash);
          hash = fold (\<lambda>side. fold (\<lambda>turn h.
                   if m_castling_rights b side turn
                   then h XOR zobrist_castle_side_turn E side turn else h) [WHITE, BLACK])
                   [KINGSIDE, QUEENSIDE] hash
      in hash)"

subsection \<open>\<open>Board::make_move\<close>\<close>

text \<open>The statements of \<open>make_move\<close>, in the source's order, one definition per block.\<close>

definition mm_clocks :: "Board \<Rightarrow> Move \<Rightarrow> Board \<Rightarrow> Board" where
  "mm_clocks b move result =
     (let piece = get_piece_at b (move_from move);
          result = result \<lparr> m_full_move_clock := m_full_move_clock result + turn_index (m_turn b) \<rparr>;
          result = (if piece = PAWN \<or> is_capture move
                    then result \<lparr> m_half_move_clock := 0 \<rparr>
                    else result \<lparr> m_half_move_clock := m_half_move_clock result + 1 \<rparr>)
      in result \<lparr> m_enpassant_square := SQUARE_NULL \<rparr>)"

definition mm_castling :: "Env \<Rightarrow> Board \<Rightarrow> Move \<Rightarrow> Board \<Rightarrow> Board" where
  "mm_castling E b move result =
     (let piece = get_piece_at b (move_from move) in
      if piece = KING
      then fold (\<lambda>side. set_castling E False side (m_turn b)) [KINGSIDE, QUEENSIDE] result
      else if piece = ROOK
      then (let result = (if move_from move = (if m_turn b = WHITE then SQUARE_H1 else SQUARE_H8)
                          then set_castling E False KINGSIDE (m_turn b) result else result)
            in if move_from move = (if m_turn b = WHITE then SQUARE_A1 else SQUARE_A8)
               then set_castling E False QUEENSIDE (m_turn b) result else result)
      else result)"

definition mm_type_action :: "Env \<Rightarrow> Board \<Rightarrow> Move \<Rightarrow> Board \<Rightarrow> Board" where
  "mm_type_action E b move result =
     (let up = (if m_turn b = WHITE then 8 else - 8) in
      if is_capture move
      then (let target = (if is_ep_capture move then move_to move - up else move_to move);
                result = pop_piece E (get_piece_at b target) (flip (m_turn b)) target result;
                result = (if move_to move = (if m_turn b = WHITE then SQUARE_H8 else SQUARE_H1)
                          then set_castling E False KINGSIDE (flip (m_turn b)) result else result)
            in if move_to move = (if m_turn b = WHITE then SQUARE_A8 else SQUARE_A1)
               then set_castling E False QUEENSIDE (flip (m_turn b)) result else result)
      else if is_double_pawn_push move
      then result \<lparr> m_enpassant_square := move_to move - up,
                    m_hash := m_hash result XOR zobrist_ep_file E (file_of (move_to move)) \<rparr>
      else if is_castle move
      then (let iS = move_to move + (if move_to move > move_from move then 1 else - 2);
                iE = move_to move + (if move_to move > move_from move then - 1 else 1)
            in move_piece E ROOK (m_turn b) iS iE result)
      else result)"

definition mm_place :: "Env \<Rightarrow> Board \<Rightarrow> Move \<Rightarrow> Board \<Rightarrow> Board" where
  "mm_place E b move result =
     (let piece = get_piece_at b (move_from move) in
      if is_promotion move
      then set_piece E (promo_piece move) (m_turn b) (move_to move)
             (pop_piece E piece (m_turn b) (move_from move) result)
      else move_piece E piece (m_turn b) (move_from move) (move_to move) result)"

definition mm_swap_turn :: "Env \<Rightarrow> Board \<Rightarrow> Board \<Rightarrow> Board" where
  "mm_swap_turn E b result =
     (let result = result \<lparr> m_turn := flip (m_turn b),
                           m_hash := m_hash result XOR zobrist_black_move E \<rparr>
      in if m_enpassant_square b \<noteq> SQUARE_NULL
         then result \<lparr> m_hash := m_hash result XOR zobrist_ep_file E (file_of (m_enpassant_square b)) \<rparr>
         else result)"

definition make_move :: "Env \<Rightarrow> Board \<Rightarrow> Move \<Rightarrow> Board" where
  "make_move E b move =
     update_checkers E (mm_swap_turn E b (mm_place E b move
       (mm_type_action E b move (mm_castling E b move (mm_clocks b move b)))))"

subsection \<open>\<open>Board::make_null_move\<close>\<close>

definition make_null_move :: "Env \<Rightarrow> Board \<Rightarrow> Board" where
  "make_null_move E b =
     (let result = b \<lparr> m_enpassant_square := SQUARE_NULL \<rparr>;
          result = (if m_enpassant_square b \<noteq> SQUARE_NULL
                    then result \<lparr> m_hash := m_hash result XOR zobrist_ep_file E (file_of (m_enpassant_square b)) \<rparr>
                    else result)
      in result \<lparr> m_turn := flip (m_turn b), m_hash := m_hash result XOR zobrist_black_move E \<rparr>)"


subsection \<open>\<open>Board::is_valid\<close>\<close>

text \<open>
  The bitboard-consistency loop: piece-major, colour-minor; \<open>None\<close> is the early
  \<open>return false\<close> on an overlap, \<open>Some occupancy\<close> the accumulated occupancy.
\<close>

definition bitboard_consistency :: "Board \<Rightarrow> Bitboard option" where
  "bitboard_consistency b =
     fold (\<lambda>piece. fold (\<lambda>turn acc.
            case acc of None \<Rightarrow> None
            | Some occupancy \<Rightarrow>
                if m_pieces b piece turn AND occupancy \<noteq> 0 then None
                else Some (occupancy OR m_pieces b piece turn)) [WHITE, BLACK])
       piece_types (Some 0)"

definition piece_square_consistency :: "Board \<Rightarrow> Bitboard \<Rightarrow> bool" where
  "piece_square_consistency b occupancy =
     list_all (\<lambda>square.
        if m_board_pieces b square = NO_PIECE then \<not> bb_test occupancy square
        else bb_test (m_pieces b (get_piece_at b square) (get_turn (m_board_pieces b square))) square)
       (map int [0..<64])"

text \<open>
  The material and phase loop: \<open>phase\<close> is a \<open>uint8_t\<close> that starts at
  \<open>Phases::Total\<close> and wraps; \<open>eval\<close> is a \<open>MixedScore\<close>.
\<close>

definition material_phase :: "Env \<Rightarrow> Board \<Rightarrow> 8 word \<times> (int \<times> int)" where
  "material_phase E b =
     fold (\<lambda>piece. fold (\<lambda>turn (phase, eval).
        let bb = m_pieces b piece turn;
            eval = ms_add eval (ms_mul (ms_mul (piece_value E piece) (bb_count bb)) (turn_to_color turn));
            phase = phase - word_of_int (bb_count bb * Phases_Pieces E piece);
            eval = bb_fold (\<lambda>sq ev. ms_add ev (ms_mul (piece_square E piece sq turn) (turn_to_color turn)))
                     bb eval
        in (phase, eval)) [WHITE, BLACK])
       piece_types (word_of_int (Phases_Total E), (0, 0))"

definition is_valid :: "Env \<Rightarrow> Board \<Rightarrow> bool" where
  "is_valid E b =
     (let king_square = bitscan_forward (m_pieces b KING (flip (m_turn b))) in
      if attackers E b king_square (get_pieces b) (m_turn b) \<noteq> 0 then False
      else case bitboard_consistency b of
        None \<Rightarrow> False
      | Some occupancy \<Rightarrow>
          if \<not> piece_square_consistency b occupancy then False
          else if m_hash b \<noteq> generate_hash E b then False
          else let (phase, eval) = material_phase E b in
            if phase \<noteq> m_phase b then False
            else if fst eval \<noteq> fst (m_psq b) \<or> snd eval \<noteq> snd (m_psq b) then False
            else True)"

subsection \<open>\<open>Board::legal\<close>\<close>

text \<open>
  Modelled from the spec: the template \<open>legal<PIECE>(move, occupancy)\<close> is in the absent
  header. It is the per-piece geometry check against the current occupancy, and the
  check that after the move our king is not attacked. Castling needs the right held, the
  squares between king and rook empty, the king not in check and the king path square
  (f-file, resp. d-file) not attacked.
\<close>

definition king_safe_after :: "Env \<Rightarrow> Board \<Rightarrow> Move \<Rightarrow> bool" where
  "king_safe_after E b move =
     (let result = make_move E b move; us = m_turn b
      in attackers E result (bitscan_forward (m_pieces result KING us)) (get_pieces result) (flip us) = 0)"

definition last_rank :: "Turn \<Rightarrow> Square \<Rightarrow> bool" where
  "last_rank turn sq = (rank_of sq = (if turn = WHITE then 7 else 0))"

definition legal_pawn :: "Env \<Rightarrow> Board \<Rightarrow> Move \<Rightarrow> Bitboard \<Rightarrow> bool" where
  "legal_pawn E b move occupancy =
     (let us = m_turn b; up = (if us = WHITE then 8 else - 8);
          sq_from = move_from move; sq_to = move_to move;
          push = (sq_to = sq_from + up \<and> \<not> bb_test occupancy sq_to);
          attack = bb_test (pawn_attacks E us sq_from) sq_to
      in if is_castle move then False
         else if is_double_pawn_push move
         then rank_of sq_from = (if us = WHITE then 1 else 6) \<and> sq_to = sq_from + 2 * up
              \<and> \<not> bb_test occupancy (sq_from + up) \<and> \<not> bb_test occupancy sq_to
         else if is_ep_capture move then attack
         else (if is_capture move then attack else push)
              \<and> (is_promotion move \<longleftrightarrow> last_rank us sq_to))"

definition legal_king :: "Env \<Rightarrow> Board \<Rightarrow> Move \<Rightarrow> Bitboard \<Rightarrow> bool" where
  "legal_king E b move occupancy =
     (let us = m_turn b; home = (if us = WHITE then 4 else 60);
          sq_from = move_from move; sq_to = move_to move;
          free = (\<lambda>sq. \<not> bb_test occupancy sq);
          safe = (\<lambda>sq. attackers E b sq occupancy (flip us) = 0)
      in if move_type move = KING_CASTLE
         then m_castling_rights b KINGSIDE us \<and> sq_from = home \<and> sq_to = home + 2
              \<and> free (home + 1) \<and> free (home + 2) \<and> safe home \<and> safe (home + 1)
         else if move_type move = QUEEN_CASTLE
         then m_castling_rights b QUEENSIDE us \<and> sq_from = home \<and> sq_to = home - 2
              \<and> free (home - 1) \<and> free (home - 2) \<and> free (home - 3)
              \<and> safe home \<and> safe (home - 1)
         else bb_test (king_attacks E sq_from) sq_to)"

definition legal_piece :: "Env \<Rightarrow> PieceType \<Rightarrow> Board \<Rightarrow> Move \<Rightarrow> Bitboard \<Rightarrow> bool" where
  "legal_piece E piece b move occupancy =
     ((case piece of
         PAWN \<Rightarrow> legal_pawn E b move occupancy
       | KNIGHT \<Rightarrow> bb_test (knight_attacks E (move_from move)) (move_to move)
       | BISHOP \<Rightarrow> bb_test (bishop_attacks E (move_from move) occupancy) (move_to move)
       | ROOK \<Rightarrow> bb_test (rook_attacks E (move_from move) occupancy) (move_to move)
       | QUEEN \<Rightarrow> bb_test (bishop_attacks E (move_from move) occupancy OR
                            rook_attacks E (move_from move) occupancy) (move_to move)
       | KING \<Rightarrow> legal_king E b move occupancy
       | PIECE_NONE \<Rightarrow> False)
      \<and> king_safe_after E b move)"

text \<open>\<open>Board::legal\<close>, check by check as in the source.\<close>

definition legal :: "Env \<Rightarrow> Board \<Rightarrow> Move \<Rightarrow> bool" where
  "legal E b move =
     (if move_from move = move_to move then False
      else if is_ep_capture move \<and>
              (m_enpassant_square b = SQUARE_NULL \<or> move_to move \<noteq> m_enpassant_square b) then False
      else if move_type move = INVALID_1 \<or> move_type move = INVALID_2 then False
      else let our_pieces = get_pieces_turn b (m_turn b) in
        if \<not> bb_test our_pieces (move_from move) \<or> bb_test our_pieces (move_to move) then False
        else let piece = get_piece_at b (move_from move);
                 enemy_pieces = get_pieces b AND NOT our_pieces;
                 enemy_pieces = (if is_ep_capture move \<and> piece = PAWN \<and> m_enpassant_square b \<noteq> SQUARE_NULL
                                 then bb_set enemy_pieces (m_enpassant_square b) else enemy_pieces)
          in if bb_test enemy_pieces (move_to move) \<noteq> is_capture move then False
             else if piece \<noteq> PAWN \<and> (is_double_pawn_push move \<or> is_ep_capture move \<or> is_promotion move)
             then False
             else if piece \<noteq> KING \<and> is_castle move then False
             else let occupancy = get_pieces b in
               if piece = PAWN then legal_piece E PAWN b move occupancy
               else if piece = KNIGHT then legal_piece E KNIGHT b move occupancy
               else if piece = BISHOP then legal_piece E BISHOP b move occupancy
               else if piece = ROOK then legal_piece E ROOK b move occupancy
               else if piece = QUEEN then legal_piece E QUEEN b move occupancy
               else if piece = KING then legal_piece E KING b move occupancy
               else False)"


subsection \<open>FEN: \<open>Board::Board(std::string)\<close> and \<open>Board::to_fen\<close>\<close>

text \<open>The \<open><cctype>\<close> predicates in the C locale, on bytes.\<close>

definition isspace :: "char \<Rightarrow> bool" where
  "isspace c = (of_char c \<in> {32, 9, 10, 11, 12, 13 :: nat})"

definition isdigit :: "char \<Rightarrow> bool" where
  "isdigit c = (48 \<le> (of_char c :: nat) \<and> (of_char c :: nat) \<le> 57)"

definition isupper :: "char \<Rightarrow> bool" where
  "isupper c = (65 \<le> (of_char c :: nat) \<and> (of_char c :: nat) \<le> 90)"

definition tolower :: "char \<Rightarrow> char" where
  "tolower c = (if isupper c then char_of (of_char c + (32 :: nat)) else c)"

definition toupper :: "char \<Rightarrow> char" where
  "toupper c = (if 97 \<le> (of_char c :: nat) \<and> (of_char c :: nat) \<le> 122
                then char_of (of_char c - (32 :: nat)) else c)"

definition fen_piece :: "char \<Rightarrow> PieceType" where
  "fen_piece c =
     (let lower = tolower c in
      if lower = CHR ''p'' then PAWN
      else if lower = CHR ''n'' then KNIGHT
      else if lower = CHR ''b'' then BISHOP
      else if lower = CHR ''r'' then ROOK
      else if lower = CHR ''q'' then QUEEN
      else if lower = CHR ''k'' then KING
      else PIECE_NONE)"

definition fen_piece_char :: "Piece \<Rightarrow> char" where
  "fen_piece_char pc =
     (let piece = get_piece_type pc;
          p = (if piece = PAWN then CHR ''p''
               else if piece = KNIGHT then CHR ''n''
               else if piece = BISHOP then CHR ''b''
               else if piece = ROOK then CHR ''r''
               else if piece = QUEEN then CHR ''q''
               else if piece = KING then CHR ''k''
               else CHR ''x'')
      in if get_turn pc = WHITE then toupper p else p)"

definition fen_castle_side :: "char \<Rightarrow> CastleSide" where
  "fen_castle_side c =
     (let lower = tolower c in
      if lower = CHR ''k'' then KINGSIDE
      else if lower = CHR ''q'' then QUEENSIDE
      else NO_SIDE)"

definition fen_castle_side_char :: "CastleSide \<Rightarrow> Turn \<Rightarrow> char" where
  "fen_castle_side_char side turn =
     (let c = (if side = KINGSIDE then CHR ''k''
               else if side = QUEENSIDE then CHR ''q''
               else CHR ''x'')
      in if turn = WHITE then toupper c else c)"

text \<open>\<open>*c - '0'\<close> and the like: the difference of two character codes, as an \<open>int\<close>.\<close>

definition char_diff :: "char \<Rightarrow> char \<Rightarrow> int" where
  "char_diff c d = int (of_char c) - int (of_char d)"

text \<open>
  The constructor reads the string through the iterator \<open>c\<close>; here \<open>c\<close> is the rest of
  the string it points at. The placement loop stops at the first space or at the end.
\<close>

fun fen_placement :: "Env \<Rightarrow> string \<Rightarrow> Square \<Rightarrow> Board \<Rightarrow> Board \<times> string" where
  "fen_placement E [] square b = (b, [])"
| "fen_placement E (c # cs) square b =
     (if isspace c then (b, c # cs)
      else if isdigit c then fen_placement E cs (square + char_diff c (CHR ''0'')) b
      else if c = CHR ''/'' then fen_placement E cs (square - 16) b
      else fen_placement E cs (square + 1)
             (set_piece E (fen_piece c) (if isupper c then WHITE else BLACK) square b))"

text \<open>
  \<open>while ((++c) < fen.cend() && !isspace(*c)) body(*c);\<close>: step over the character \<open>c\<close>
  stands on, then consume characters up to the next space. \<open>fen_field\<close> gives the
  characters the body sees and the rest, which starts at the space.
\<close>

definition fen_field :: "string \<Rightarrow> string \<times> string" where
  "fen_field cs = (takeWhile (\<lambda>c. \<not> isspace c) (drop 1 cs), dropWhile (\<lambda>c. \<not> isspace c) (drop 1 cs))"

text \<open>
  The en-passant loop advances \<open>c\<close> a second time inside its body:
  \<open>if (*c != '-' && (++c) != fen.cend() && !isspace(*c)) ep = make_square(*c - '1', *(c-1) - 'a')\<close>.
\<close>

fun fen_ep :: "string \<Rightarrow> Square \<Rightarrow> Square \<times> string" where
  "fen_ep [] ep = (ep, [])"
| "fen_ep [c] ep = (ep, [])"
| "fen_ep (c # x # xs) ep =
     (if isspace x then (ep, x # xs)
      else if x \<noteq> CHR ''-''
      then (case xs of
              [] \<Rightarrow> (ep, [])
            | y # ys \<Rightarrow>
                if \<not> isspace y
                then fen_ep (y # ys) (make_square (char_diff y (CHR ''1'')) (char_diff x (CHR ''a'')))
                else fen_ep (y # ys) ep)
      else fen_ep (x # xs) ep)"

definition fen_number :: "string \<Rightarrow> int" where
  "fen_number cs = fold (\<lambda>c n. n * 10 + char_diff c (CHR ''0'')) cs 0"

definition empty_board :: "Env \<Rightarrow> Board" where
  "empty_board E =
     \<lparr> m_pieces = (\<lambda>piece turn. 0), m_board_pieces = (\<lambda>sq. NO_PIECE), m_hash = 0,
       m_psq = (0, 0), m_phase = word_of_int (Phases_Total E), m_turn = WHITE,
       m_castling_rights = (\<lambda>side turn. False), m_enpassant_square = SQUARE_NULL,
       m_half_move_clock = 0, m_full_move_clock = 0, m_checkers = 0 \<rparr>"

definition Board_fen :: "Env \<Rightarrow> string \<Rightarrow> Board" where
  "Board_fen E fen =
     (let (b, c) = fen_placement E fen SQUARE_A8 (empty_board E);
          (field, c) = fen_field c;
          b = b \<lparr> m_turn := fold (\<lambda>ch t. if ch = CHR ''w'' then WHITE else BLACK) field WHITE \<rparr>;
          (field, c) = fen_field c;
          b = fold (\<lambda>ch b. if fen_castle_side ch \<noteq> NO_SIDE
                            then set_castling E True (fen_castle_side ch)
                                   (if isupper ch then WHITE else BLACK) b
                            else b) field b;
          (ep, c) = fen_ep c SQUARE_NULL;
          b = b \<lparr> m_enpassant_square := ep \<rparr>;
          (field, c) = fen_field c;
          b = b \<lparr> m_half_move_clock := fen_number field \<rparr>;
          (field, c) = fen_field c;
          b = b \<lparr> m_full_move_clock := max (fen_number field) 1 \<rparr>;
          b = (if m_turn b = BLACK then b \<lparr> m_hash := m_hash b XOR zobrist_black_move E \<rparr> else b);
          b = (if m_enpassant_square b \<noteq> SQUARE_NULL
               then b \<lparr> m_hash := m_hash b XOR zobrist_ep_file E (file_of (m_enpassant_square b)) \<rparr>
               else b)
      in update_checkers E b)"

text \<open>
  \<open>operator<<\<close> on an \<open>int\<close>: the decimal digits, with a minus sign for a negative
  number.
\<close>

definition digit_char :: "nat \<Rightarrow> char" where
  "digit_char d = char_of (48 + d)"

function show_nat :: "nat \<Rightarrow> string" where
  "show_nat n = (if n < 10 then [digit_char n] else show_nat (n div 10) @ [digit_char (n mod 10)])"
  by pat_completeness auto
termination
  by (relation "measure id") auto

declare show_nat.simps [simp del]

definition show_int :: "int \<Rightarrow> string" where
  "show_int i = (if i < 0 then CHR ''-'' # show_nat (nat (- i)) else show_nat (nat i))"

text \<open>
  Modelled from the spec: \<open>get_square\<close> is absent; it names a square by its file letter
  \<open>a..h\<close> and its rank digit \<open>1..8\<close>.
\<close>

definition get_square :: "Square \<Rightarrow> string" where
  "get_square sq = [char_of (97 + nat (file_of sq)), char_of (49 + nat (rank_of sq))]"

text \<open>One rank of the placement field: the inner \<open>for\<close> over the files, with the run of
  empty squares in \<open>space\<close>.\<close>

fun fen_rank_loop :: "Board \<Rightarrow> int \<Rightarrow> int list \<Rightarrow> int \<Rightarrow> string" where
  "fen_rank_loop b rank [] space = (if space \<noteq> 0 then show_int space else [])"
| "fen_rank_loop b rank (file # files) space =
     (let pc = m_board_pieces b (make_square rank file) in
      if pc = NO_PIECE then fen_rank_loop b rank files (space + 1)
      else (if space \<noteq> 0 then show_int space else []) @ [fen_piece_char pc]
             @ fen_rank_loop b rank files 0)"

definition to_fen :: "Board \<Rightarrow> string" where
  "to_fen b =
     concat (map (\<lambda>rank. fen_rank_loop b rank (map int [0..<8]) 0
                    @ [if rank > 0 then CHR ''/'' else CHR '' ''])
               (map int (rev [0..<8])))
     @ (if m_turn b = WHITE then ''w '' else ''b '')
     @ (let cs = concat (map (\<lambda>turn. concat (map (\<lambda>side.
                  if m_castling_rights b side turn then [fen_castle_side_char side turn] else [])
                  [KINGSIDE, QUEENSIDE])) [WHITE, BLACK])
        in cs @ (if cs \<noteq> [] then '' '' else ''- ''))
     @ (if m_enpassant_square b = SQUARE_NULL then ''-'' else get_square (m_enpassant_square b))
     @ '' ''
     @ show_int (m_half_move_clock b) @ '' '' @ show_int (m_full_move_clock b)"

section \<open>Position (position.cpp)\<close>

text \<open>
  The class \<open>MoveStack\<close> of \<open>m_stack\<close> is declared in an absent header; its type is the
  parameter \<open>'ms\<close>, and its operators \<open>++\<close> and \<open>--\<close> are parameters of the operations
  that use them.
\<close>

record MoveInfo =
  move :: Move
  extended :: bool

record 'ms Position =
  m_boards :: "Board list"
  m_stack :: 'ms
  m_pos :: Depth
  m_extensions :: int
  m_moves :: "MoveInfo list"
  m_reduced :: bool

text \<open>\<open>Position::board()\<close> is \<open>m_boards.back()\<close>.\<close>

definition board :: "'ms Position \<Rightarrow> Board" where
  "board pos = last (m_boards pos)"

definition Position_in_check :: "'ms Position \<Rightarrow> bool" where
  "Position_in_check pos = (m_checkers (board pos) \<noteq> 0)"

definition Position_get_turn :: "'ms Position \<Rightarrow> Turn" where
  "Position_get_turn pos = m_turn (board pos)"

text \<open>
  \<open>Position::Position(std::string fen)\<close>: one board, the root; \<open>stack\<close> is the value
  of \<open>MoveStack(NUM_MAX_DEPTH)\<close>.
\<close>

definition Position_fen :: "'ms \<Rightarrow> Env \<Rightarrow> string \<Rightarrow> 'ms Position" where
  "Position_fen stack E fen =
     \<lparr> m_boards = [Board_fen E fen], m_stack = stack, m_pos = 0, m_extensions = 0,
       m_moves = [], m_reduced = False \<rparr>"

definition Position_make_move ::
  "('ms \<Rightarrow> 'ms) \<Rightarrow> Env \<Rightarrow> Move \<Rightarrow> bool \<Rightarrow> 'ms Position \<Rightarrow> 'ms Position" where
  "Position_make_move stack_inc E mv extension pos =
     (let pos = pos \<lparr> m_stack := stack_inc (m_stack pos) \<rparr>;
          pos = pos \<lparr> m_pos := m_pos pos + 1 \<rparr>;
          pos = pos \<lparr> m_boards := m_boards pos @ [make_move E (board pos) mv] \<rparr>;
          pos = pos \<lparr> m_moves := m_moves pos @ [\<lparr> move = mv, extended = extension \<rparr>] \<rparr>
      in if extension then pos \<lparr> m_extensions := m_extensions pos + 1 \<rparr> else pos)"

definition Position_unmake_move :: "('ms \<Rightarrow> 'ms) \<Rightarrow> 'ms Position \<Rightarrow> 'ms Position" where
  "Position_unmake_move stack_dec pos =
     (let pos = pos \<lparr> m_boards := butlast (m_boards pos) \<rparr>;
          pos = pos \<lparr> m_stack := stack_dec (m_stack pos) \<rparr>;
          pos = pos \<lparr> m_pos := m_pos pos - 1 \<rparr>;
          info = last (m_moves pos);
          pos = (if extended info then pos \<lparr> m_extensions := m_extensions pos - 1 \<rparr> else pos)
      in pos \<lparr> m_moves := butlast (m_moves pos) \<rparr>)"

definition Position_make_null_move :: "('ms \<Rightarrow> 'ms) \<Rightarrow> Env \<Rightarrow> 'ms Position \<Rightarrow> 'ms Position" where
  "Position_make_null_move stack_inc E pos =
     (let pos = pos \<lparr> m_stack := stack_inc (m_stack pos) \<rparr>;
          pos = pos \<lparr> m_pos := m_pos pos + 1 \<rparr>;
          pos = pos \<lparr> m_boards := m_boards pos @ [make_null_move E (board pos)] \<rparr>
      in pos \<lparr> m_moves := m_moves pos @ [\<lparr> move = MOVE_NULL, extended = False \<rparr>] \<rparr>)"

subsection \<open>\<open>Position::is_draw\<close>\<close>

text \<open>
  The two \<open>while\<close> loops of the repetition search; \<open>boards\<close> is \<open>m_boards\<close>, \<open>h\<close> the
  hash of the current board. The indices read are within the vector whenever
  \<open>0 \<le> min_pos\<close>, which the caller's \<open>min\<close> ensures.
\<close>

function draw_loop2 :: "Board list \<Rightarrow> Hash \<Rightarrow> int \<Rightarrow> int \<Rightarrow> bool" where
  "draw_loop2 boards h min_pos pos2 =
     (if pos2 \<ge> min_pos
      then (if h = m_hash (boards ! nat pos2) then True
            else draw_loop2 boards h min_pos (pos2 - 2))
      else False)"
  by pat_completeness auto
termination
  by (relation "measure (\<lambda>(boards, h, min_pos, pos2). nat (pos2 - min_pos + 1))") auto

function draw_loop1 :: "Board list \<Rightarrow> Hash \<Rightarrow> bool \<Rightarrow> int \<Rightarrow> int \<Rightarrow> bool" where
  "draw_loop1 boards h unique min_pos pos1 =
     (if pos1 \<ge> min_pos
      then (if h = m_hash (boards ! nat pos1)
            then (if unique then True
                  else if draw_loop2 boards h min_pos (pos1 - 4) then True
                  else draw_loop1 boards h unique min_pos (pos1 - 2))
            else draw_loop1 boards h unique min_pos (pos1 - 2))
      else False)"
  by pat_completeness auto
termination
  by (relation "measure (\<lambda>(boards, h, unique, min_pos, pos1). nat (pos1 - min_pos + 1))") auto

declare draw_loop1.simps [simp del] draw_loop2.simps [simp del]

definition is_draw :: "'ms Position \<Rightarrow> bool \<Rightarrow> bool" where
  "is_draw pos unique =
     (if m_half_move_clock (board pos) \<ge> 100 then True
      else let cur_pos = int (length (m_boards pos)) - 1;
               n_moves = min (cur_pos + 1) (m_half_move_clock (board pos));
               min_pos = cur_pos - n_moves + 1
        in if n_moves \<ge> 8
           then draw_loop1 (m_boards pos) (m_hash (board pos)) unique min_pos (cur_pos - 4)
           else False)"


section \<open>Histories (move\_order.cpp)\<close>

definition NUM_KILLERS :: nat where "NUM_KILLERS = 3"

text \<open>The four tables; the \<open>int\<close> counters are modelled without overflow.\<close>

record Histories =
  m_killers :: "nat \<Rightarrow> Depth \<Rightarrow> Move"
  m_butterfly :: "Turn \<Rightarrow> Square \<Rightarrow> Square \<Rightarrow> int"
  m_piece_type :: "PieceType \<Rightarrow> Square \<Rightarrow> int"
  m_countermoves :: "Square \<Rightarrow> Square \<Rightarrow> Move"

definition Histories_clear :: Histories where
  "Histories_clear =
     \<lparr> m_killers = (\<lambda>i j. MOVE_NULL), m_butterfly = (\<lambda>i j k. 0),
       m_piece_type = (\<lambda>i j. 0), m_countermoves = (\<lambda>i j. MOVE_NULL) \<rparr>"

definition is_killer :: "Histories \<Rightarrow> Move \<Rightarrow> Depth \<Rightarrow> bool" where
  "is_killer h mv ply = list_ex (\<lambda>i. m_killers h i ply = mv) [0..<NUM_KILLERS]"

definition get_killer :: "Histories \<Rightarrow> nat \<Rightarrow> Depth \<Rightarrow> Move" where
  "get_killer h index ply = m_killers h index ply"

definition countermove :: "Histories \<Rightarrow> Move \<Rightarrow> Move" where
  "countermove h mv = m_countermoves h (move_from mv) (move_to mv)"

definition butterfly_score :: "Histories \<Rightarrow> Move \<Rightarrow> Turn \<Rightarrow> int" where
  "butterfly_score h mv turn = m_butterfly h turn (move_from mv) (move_to mv)"

definition piece_type_score :: "Histories \<Rightarrow> Move \<Rightarrow> PieceType \<Rightarrow> int" where
  "piece_type_score h mv piece = m_piece_type h piece (move_to mv)"

text \<open>
  \<open>fail_high\<close>: the right shift of the killers runs from the last slot down to slot 1,
  then slot 0 takes the new move.
\<close>

definition fail_high ::
  "Move \<Rightarrow> Move \<Rightarrow> Turn \<Rightarrow> Depth \<Rightarrow> Depth \<Rightarrow> PieceType \<Rightarrow> Histories \<Rightarrow> Histories" where
  "fail_high mv prev_move turn depth ply piece h =
     (let h = h \<lparr> m_butterfly := (m_butterfly h)(turn := (m_butterfly h turn)
                    (move_from mv := (m_butterfly h turn (move_from mv))
                      (move_to mv := m_butterfly h turn (move_from mv) (move_to mv) + depth * depth))) \<rparr>;
          h = h \<lparr> m_piece_type := (m_piece_type h)(piece := (m_piece_type h piece)
                    (move_to mv := m_piece_type h piece (move_to mv) + depth * depth)) \<rparr>;
          h = h \<lparr> m_countermoves := (m_countermoves h)(move_from prev_move :=
                    (m_countermoves h (move_from prev_move))(move_to prev_move := mv)) \<rparr>
      in if is_killer h mv ply then h
         else let h = fold (\<lambda>i h. h \<lparr> m_killers := (m_killers h)(i := (m_killers h i)
                                         (ply := m_killers h (i - 1) ply)) \<rparr>)
                        (rev [1..<NUM_KILLERS]) h
              in h \<lparr> m_killers := (m_killers h)(0 := (m_killers h 0)(ply := mv)) \<rparr>)"

section \<open>MoveOrder (move\_order.cpp and its header)\<close>

datatype MoveStage =
    HASH | CAPTURES_INIT | CAPTURES | CAPTURES_END | COUNTERMOVES | KILLERS
  | QUIET_INIT | QUIET_STAGE | NO_MOVES

text \<open>\<open>operator++\<close> on the stage; the source never applies it at \<open>NO_MOVES\<close>.\<close>

fun stage_succ :: "MoveStage \<Rightarrow> MoveStage" where
  "stage_succ HASH = CAPTURES_INIT"
| "stage_succ CAPTURES_INIT = CAPTURES"
| "stage_succ CAPTURES = CAPTURES_END"
| "stage_succ CAPTURES_END = COUNTERMOVES"
| "stage_succ COUNTERMOVES = KILLERS"
| "stage_succ KILLERS = QUIET_INIT"
| "stage_succ QUIET_INIT = QUIET_STAGE"
| "stage_succ QUIET_STAGE = NO_MOVES"
| "stage_succ NO_MOVES = NO_MOVES"

fun stage_index :: "MoveStage \<Rightarrow> nat" where
  "stage_index HASH = 0"
| "stage_index CAPTURES_INIT = 1"
| "stage_index CAPTURES = 2"
| "stage_index CAPTURES_END = 3"
| "stage_index COUNTERMOVES = 4"
| "stage_index KILLERS = 5"
| "stage_index QUIET_INIT = 6"
| "stage_index QUIET_STAGE = 7"
| "stage_index NO_MOVES = 8"

datatype MoveGenType = GEN_CAPTURES | GEN_QUIETS | GEN_LEGAL

text \<open>
  The cursor. \<open>m_position\<close> and \<open>m_histories\<close> are references and are passed to
  \<open>next_move\<close>; \<open>mo_moves\<close> is the member \<open>m_moves\<close> (a \<open>MoveList\<close>, a view of the move
  stack), \<open>m_curr\<close> the index its pointer \<open>m_curr\<close> stands at.
\<close>

record MoveOrder =
  m_ply :: Depth
  m_depth :: Depth
  m_hash_move :: Move
  m_prev_move :: Move
  m_quiescence :: bool
  mo_moves :: "Move list"
  m_stage :: MoveStage
  m_countermove :: Move
  m_killer :: Move
  m_curr :: nat

definition MoveOrder_init :: "Depth \<Rightarrow> Depth \<Rightarrow> Move \<Rightarrow> Move \<Rightarrow> bool \<Rightarrow> MoveOrder" where
  "MoveOrder_init ply depth hash_move prev_move quiescence =
     \<lparr> m_ply = ply, m_depth = depth, m_hash_move = hash_move, m_prev_move = prev_move,
       m_quiescence = quiescence, mo_moves = [], m_stage = HASH,
       m_countermove = MOVE_NULL, m_killer = MOVE_NULL, m_curr = 0 \<rparr>"

text \<open>\<open>capture_score\<close>: MVV-LVA; the table has six entries, a read at \<open>PIECE_NONE\<close> is
  out of range in the source and 0 here.\<close>

fun mvv_lva_score :: "PieceType \<Rightarrow> int" where
  "mvv_lva_score PAWN = 10"
| "mvv_lva_score KNIGHT = 30"
| "mvv_lva_score BISHOP = 31"
| "mvv_lva_score ROOK = 50"
| "mvv_lva_score QUEEN = 90"
| "mvv_lva_score KING = 1000"
| "mvv_lva_score PIECE_NONE = 0"

definition capture_score :: "Board \<Rightarrow> Move \<Rightarrow> int" where
  "capture_score b mv =
     (let pt_from = get_piece_at b (move_from mv);
          pt_to = (if is_ep_capture mv then PAWN else get_piece_at b (move_to mv))
      in mvv_lva_score pt_to - mvv_lva_score pt_from)"

definition quiet_score :: "Histories \<Rightarrow> Board \<Rightarrow> Move \<Rightarrow> int" where
  "quiet_score h b mv =
     (let piece = get_piece_at b (move_from mv)
      in butterfly_score h mv (m_turn b) + piece_type_score h mv piece)"

text \<open>
  \<open>sort_moves\<close> sorts the range of the list it is given by descending score
  (\<open>std::sort\<close>; the order of equal scores is unspecified there, a stable sort here).
\<close>

definition sort_moves :: "(Move \<Rightarrow> int) \<Rightarrow> Move list \<Rightarrow> Move list" where
  "sort_moves score xs = sort_key (\<lambda>m. - score m) xs"

text \<open>
  \<open>threshold_moves\<close>: one pass that swaps every move scoring above the threshold to the
  front; it returns the list \<open>[begin, pos)\<close>, here the index \<open>pos\<close> with the permuted
  storage.
\<close>

function threshold_loop :: "(Move \<Rightarrow> int) \<Rightarrow> int \<Rightarrow> Move list \<Rightarrow> nat \<Rightarrow> nat \<Rightarrow> Move list \<times> nat" where
  "threshold_loop score threshold xs pos i =
     (if i < length xs
      then (if score (xs ! i) > threshold
            then threshold_loop score threshold
                   (if pos \<noteq> i then xs[pos := xs ! i, i := xs ! pos] else xs) (pos + 1) (i + 1)
            else threshold_loop score threshold xs pos (i + 1))
      else (xs, pos))"
  by pat_completeness auto
termination
  by (relation "measure (\<lambda>(score, threshold, xs, pos, i). length xs - i)") auto

declare threshold_loop.simps [simp del]

definition threshold_moves :: "(Move \<Rightarrow> int) \<Rightarrow> int \<Rightarrow> Move list \<Rightarrow> Move list \<times> nat" where
  "threshold_moves score threshold xs = threshold_loop score threshold xs 0 0"

text \<open>
  \<open>while (next(move)) if (keep move) return move;\<close>: the scan of the CAPTURES and QUIET
  stages. It returns the move found, if any, and the new \<open>m_curr\<close>.
\<close>

function next_loop :: "(Move \<Rightarrow> bool) \<Rightarrow> Move list \<Rightarrow> nat \<Rightarrow> Move option \<times> nat" where
  "next_loop keep xs cur =
     (if cur \<ge> length xs then (None, cur)
      else if keep (xs ! cur) then (Some (xs ! cur), cur + 1)
      else next_loop keep xs (cur + 1))"
  by pat_completeness auto
termination
  by (relation "measure (\<lambda>(keep, xs, cur). length xs - cur)") auto

declare next_loop.simps [simp del]


text \<open>
  \<open>MoveOrder::next_move\<close>. The generator \<open>Board::generate_moves<TURN>\<close> is in the absent
  header: \<open>gen b type\<close> stands for the moves it appends for \<open>type\<close> to the (empty) list
  \<open>m_position.move_list()\<close>. Each iteration of the \<open>while (true)\<close> either returns or
  moves to the next stage.
\<close>

definition killer_candidates :: "Histories \<Rightarrow> Depth \<Rightarrow> Move list" where
  "killer_candidates h ply = map (\<lambda>i. get_killer h i ply) [0..<NUM_KILLERS]"

definition quiet_init_list :: "Histories \<Rightarrow> Board \<Rightarrow> Depth \<Rightarrow> Move list \<Rightarrow> Move list" where
  "quiet_init_list h b depth xs =
     (case threshold_moves (quiet_score h b) (- 3000 * depth) xs of
        (ys, pos) \<Rightarrow> sort_moves (quiet_score h b) (take pos ys) @ drop pos ys)"

function next_move ::
  "(Board \<Rightarrow> MoveGenType \<Rightarrow> Move list) \<Rightarrow> Env \<Rightarrow> 'ms Position \<Rightarrow> Histories \<Rightarrow> MoveOrder
     \<Rightarrow> Move \<times> MoveOrder" where
  "next_move gen E pos h mo =
     (if m_stage mo = HASH
      then (if legal E (board pos) (m_hash_move mo)
            then (m_hash_move mo, mo \<lparr> m_stage := stage_succ (m_stage mo) \<rparr>)
            else next_move gen E pos h (mo \<lparr> m_stage := stage_succ (m_stage mo) \<rparr>))
      else if m_stage mo = CAPTURES_INIT
      then next_move gen E pos h
             (mo \<lparr> m_stage := stage_succ (m_stage mo),
                   mo_moves := sort_moves (capture_score (board pos)) (gen (board pos) GEN_CAPTURES),
                   m_curr := 0 \<rparr>)
      else if m_stage mo = CAPTURES
      then (case next_loop (\<lambda>mv. mv \<noteq> m_hash_move mo) (mo_moves mo) (m_curr mo) of
              (Some mv, c) \<Rightarrow> (mv, mo \<lparr> m_curr := c \<rparr>)
            | (None, c) \<Rightarrow>
                next_move gen E pos h (mo \<lparr> m_curr := c, m_stage := stage_succ (m_stage mo) \<rparr>))
      else if m_stage mo = CAPTURES_END
      then (if m_quiescence mo \<and> \<not> Position_in_check pos then (MOVE_NULL, mo)
            else next_move gen E pos h (mo \<lparr> m_stage := stage_succ (m_stage mo) \<rparr>))
      else if m_stage mo = COUNTERMOVES
      then (let candidate = countermove h (m_prev_move mo) in
            if candidate \<noteq> m_hash_move mo \<and> legal E (board pos) candidate
            then (candidate, mo \<lparr> m_stage := stage_succ (m_stage mo), m_countermove := candidate \<rparr>)
            else next_move gen E pos h (mo \<lparr> m_stage := stage_succ (m_stage mo) \<rparr>))
      else if m_stage mo = KILLERS
      then (case find (\<lambda>candidate. candidate \<noteq> m_hash_move mo \<and> candidate \<noteq> m_countermove mo
                          \<and> legal E (board pos) candidate)
                   (killer_candidates h (m_ply mo)) of
              Some candidate \<Rightarrow>
                (candidate, mo \<lparr> m_stage := stage_succ (m_stage mo), m_killer := candidate \<rparr>)
            | None \<Rightarrow>
                next_move gen E pos h (mo \<lparr> m_stage := stage_succ (m_stage mo), m_killer := MOVE_NULL \<rparr>))
      else if m_stage mo = QUIET_INIT
      then next_move gen E pos h
             (mo \<lparr> m_stage := stage_succ (m_stage mo),
                   mo_moves := quiet_init_list h (board pos) (m_depth mo) (gen (board pos) GEN_QUIETS),
                   m_curr := 0 \<rparr>)
      else if m_stage mo = QUIET_STAGE
      then (case next_loop (\<lambda>mv. mv \<noteq> m_hash_move mo \<and> mv \<noteq> m_killer mo \<and> mv \<noteq> m_countermove mo)
                   (mo_moves mo) (m_curr mo) of
              (Some mv, c) \<Rightarrow> (mv, mo \<lparr> m_curr := c \<rparr>)
            | (None, c) \<Rightarrow>
                next_move gen E pos h (mo \<lparr> m_curr := c, m_stage := stage_succ (m_stage mo) \<rparr>))
      else (MOVE_NULL, mo))"
  by pat_completeness auto
termination
  by (relation "measure (\<lambda>(gen, E, pos, h, mo). 8 - stage_index (m_stage mo))") auto

declare next_move.simps [simp del]

text \<open>The result of call number \<open>n + 1\<close> on a cursor, and the cursor after \<open>n\<close> calls.\<close>

fun after_calls ::
  "(Board \<Rightarrow> MoveGenType \<Rightarrow> Move list) \<Rightarrow> Env \<Rightarrow> 'ms Position \<Rightarrow> Histories \<Rightarrow> nat \<Rightarrow> MoveOrder
     \<Rightarrow> MoveOrder" where
  "after_calls gen E pos h 0 mo = mo"
| "after_calls gen E pos h (Suc n) mo = after_calls gen E pos h n (snd (next_move gen E pos h mo))"

definition nth_call ::
  "(Board \<Rightarrow> MoveGenType \<Rightarrow> Move list) \<Rightarrow> Env \<Rightarrow> 'ms Position \<Rightarrow> Histories \<Rightarrow> nat \<Rightarrow> MoveOrder
     \<Rightarrow> Move" where
  "nth_call gen E pos h n mo = fst (next_move gen E pos h (after_calls gen E pos h n mo))"


section \<open>A concrete instance of the tables\<close>

text \<open>
  The theorems below hold for every \<open>Env\<close>. To evaluate them at concrete positions, this
  instance gives the attack tables their chess geometry (steps for pawn, knight and king,
  rays that stop at the first occupied square for bishop and rook), and fixes some keys
  and scores.
\<close>

definition on_board :: "int \<Rightarrow> int \<Rightarrow> bool" where
  "on_board f r = (0 \<le> f \<and> f < 8 \<and> 0 \<le> r \<and> r < 8)"

definition step_attacks :: "(int \<times> int) list \<Rightarrow> Square \<Rightarrow> Bitboard" where
  "step_attacks offsets sq =
     fold (\<lambda>(df, dr) bb.
             if on_board (file_of sq + df) (rank_of sq + dr)
             then bb_set bb (make_square (rank_of sq + dr) (file_of sq + df)) else bb)
       offsets 0"

fun ray_attacks :: "nat \<Rightarrow> int \<Rightarrow> int \<Rightarrow> int \<Rightarrow> int \<Rightarrow> Bitboard \<Rightarrow> Bitboard" where
  "ray_attacks 0 f r df dr occ = 0"
| "ray_attacks (Suc n) f r df dr occ =
     (if on_board (f + df) (r + dr)
      then (let sq = make_square (r + dr) (f + df) in
            if bb_test occ sq then from_square sq
            else from_square sq OR ray_attacks n (f + df) (r + dr) df dr occ)
      else 0)"

definition slide_attacks :: "(int \<times> int) list \<Rightarrow> Square \<Rightarrow> Bitboard \<Rightarrow> Bitboard" where
  "slide_attacks dirs sq occ =
     fold (\<lambda>(df, dr) bb. bb OR ray_attacks 7 (file_of sq) (rank_of sq) df dr occ) dirs 0"

fun piece_index :: "PieceType \<Rightarrow> int" where
  "piece_index PAWN = 0"
| "piece_index KNIGHT = 1"
| "piece_index BISHOP = 2"
| "piece_index ROOK = 3"
| "piece_index QUEEN = 4"
| "piece_index KING = 5"
| "piece_index PIECE_NONE = 6"

definition std_env :: Env where
  "std_env =
     \<lparr> zobrist_piece_turn_square =
         (\<lambda>piece turn sq. word_of_int (((piece_index piece * 2 + turn_index turn) * 64 + sq + 1) * 2654435761)),
       zobrist_black_move = 1311768467463790320,
       zobrist_ep_file = (\<lambda>f. word_of_int ((f + 1001) * 40503)),
       zobrist_castle_side_turn =
         (\<lambda>side turn. word_of_int (((if side = KINGSIDE then 2001 else 3001) + turn_index turn) * 97531)),
       piece_value = (\<lambda>piece. [(100, 120), (320, 300), (330, 320), (500, 550), (900, 950), (0, 0), (0, 0)]
                                 ! nat (piece_index piece)),
       piece_square = (\<lambda>piece sq turn.
          (let r = (if turn = WHITE then rank_of sq else 7 - rank_of sq)
           in (r + piece_index piece, 2 * r - file_of sq))),
       Phases_Total = 24,
       Phases_Pieces = (\<lambda>piece. [0, 1, 1, 2, 4, 0, 0] ! nat (piece_index piece)),
       pawn_attacks = (\<lambda>turn. step_attacks (if turn = WHITE then [(- 1, 1), (1, 1)] else [(- 1, - 1), (1, - 1)])),
       knight_attacks = step_attacks [(1, 2), (2, 1), (2, - 1), (1, - 2), (- 1, - 2), (- 2, - 1), (- 2, 1), (- 1, 2)],
       king_attacks = step_attacks [(1, 0), (1, 1), (0, 1), (- 1, 1), (- 1, 0), (- 1, - 1), (0, - 1), (1, - 1)],
       bishop_attacks = slide_attacks [(1, 1), (- 1, 1), (- 1, - 1), (1, - 1)],
       rook_attacks = slide_attacks [(1, 0), (0, 1), (- 1, 0), (0, - 1)] \<rparr>"


text \<open>A move written by its squares and kind, for the concrete positions below.\<close>

definition mk_move :: "nat \<Rightarrow> nat \<Rightarrow> MoveType \<Rightarrow> Move" where
  "mk_move f t ty = \<lparr> from_bits = of_nat f, to_bits = of_nat t, move_type = ty \<rparr>"

section \<open>The move-order cursor: invariant and measure\<close>

text \<open>
  \<open>mo_potential C Q mo\<close> bounds the number of moves the cursor can still return, where
  \<open>C\<close> and \<open>Q\<close> are the numbers of generated captures and quiets; \<open>mo_inv\<close> says that
  the list of the CAPTURES and QUIET stages is a permutation of the generated one;
  \<open>mo_terminal\<close> are the two states in which \<open>next_move\<close> returns \<open>MOVE_NULL\<close>.
\<close>

definition mo_potential :: "nat \<Rightarrow> nat \<Rightarrow> MoveOrder \<Rightarrow> nat" where
  "mo_potential C Q mo =
     (case m_stage mo of
        HASH \<Rightarrow> C + Q + 3
      | CAPTURES_INIT \<Rightarrow> C + Q + 2
      | CAPTURES \<Rightarrow> (length (mo_moves mo) - m_curr mo) + Q + 2
      | CAPTURES_END \<Rightarrow> Q + 2
      | COUNTERMOVES \<Rightarrow> Q + 2
      | KILLERS \<Rightarrow> Q + 1
      | QUIET_INIT \<Rightarrow> Q
      | QUIET_STAGE \<Rightarrow> length (mo_moves mo) - m_curr mo
      | NO_MOVES \<Rightarrow> 0)"

definition mo_inv :: "(Board \<Rightarrow> MoveGenType \<Rightarrow> Move list) \<Rightarrow> 'ms Position \<Rightarrow> MoveOrder \<Rightarrow> bool" where
  "mo_inv gen pos mo =
     (m_curr mo \<le> length (mo_moves mo)
      \<and> (m_stage mo = CAPTURES \<longrightarrow> mset (mo_moves mo) = mset (gen (board pos) GEN_CAPTURES))
      \<and> (m_stage mo = QUIET_STAGE \<longrightarrow> mset (mo_moves mo) = mset (gen (board pos) GEN_QUIETS)))"

definition mo_terminal :: "'ms Position \<Rightarrow> MoveOrder \<Rightarrow> bool" where
  "mo_terminal pos mo =
     (m_stage mo = NO_MOVES
      \<or> (m_stage mo = CAPTURES_END \<and> m_quiescence mo \<and> \<not> Position_in_check pos))"

definition step_post ::
  "(Board \<Rightarrow> MoveGenType \<Rightarrow> Move list) \<Rightarrow> Env \<Rightarrow> 'ms Position \<Rightarrow> MoveOrder \<Rightarrow> Move \<Rightarrow> MoveOrder \<Rightarrow> bool" where
  "step_post gen E pos mo mv mo' =
     (mo_inv gen pos mo'
      \<and> (mv = MOVE_NULL \<longrightarrow> mo_terminal pos mo'
             \<or> MOVE_NULL \<in> set (gen (board pos) GEN_CAPTURES)
             \<or> MOVE_NULL \<in> set (gen (board pos) GEN_QUIETS))
      \<and> (mv \<noteq> MOVE_NULL \<longrightarrow>
           mo_potential (length (gen (board pos) GEN_CAPTURES)) (length (gen (board pos) GEN_QUIETS)) mo'
             < mo_potential (length (gen (board pos) GEN_CAPTURES)) (length (gen (board pos) GEN_QUIETS)) mo
           \<and> (legal E (board pos) mv \<or> mv \<in> set (gen (board pos) GEN_CAPTURES)
                \<or> mv \<in> set (gen (board pos) GEN_QUIETS))))"


text \<open>
  A knight tour that repeats a position after four plies: from
  \<open>4k1n1/8/8/8/8/8/8/4K1N1 w - - 2 2\<close>, Ng1-f3, Ng8-f6, Nf3-g1, Nf6-g8.
\<close>

definition knight_tour :: "int Position" where
  "knight_tour =
     fold (\<lambda>mv. Position_make_move (\<lambda>s. s + 1) std_env mv False)
       [mk_move 6 21 QUIET, mk_move 62 45 QUIET, mk_move 21 6 QUIET, mk_move 45 62 QUIET]
       (Position_fen 0 std_env ''4k1n1/8/8/8/8/8/8/4K1N1 w - - 2 2'')"

text \<open>
  The pseudo-legal moves of White in \<open>4k1n1/8/8/8/8/8/8/4K1N1 w - - 2 2\<close>, as the
  generator lists them by type: no capture, five king moves and three knight moves.
\<close>

definition knights_fen :: string where
  "knights_fen = ''4k1n1/8/8/8/8/8/8/4K1N1 w - - 2 2''"

definition knights_gen :: "Board \<Rightarrow> MoveGenType \<Rightarrow> Move list" where
  "knights_gen b type =
     (if type = GEN_QUIETS
      then [mk_move 4 3 QUIET, mk_move 4 5 QUIET, mk_move 4 11 QUIET, mk_move 4 12 QUIET,
            mk_move 4 13 QUIET, mk_move 6 12 QUIET, mk_move 6 21 QUIET, mk_move 6 23 QUIET]
      else [])"

text \<open>
  Histories after three fail-highs: Ng1-h3 and then Ng1-f3 at ply 0, and Ke1-d1 at
  ply 2 with depth 5; and a cursor at ply 0 with no hash move.
\<close>

definition killer_histories :: Histories where
  "killer_histories =
     fail_high (mk_move 4 3 QUIET) (mk_move 62 45 QUIET) WHITE 5 2 KING
       (fail_high (mk_move 6 21 QUIET) (mk_move 62 45 QUIET) WHITE 1 0 KNIGHT
         (fail_high (mk_move 6 23 QUIET) (mk_move 62 45 QUIET) WHITE 1 0 KNIGHT Histories_clear))"

definition killer_cursor :: MoveOrder where
  "killer_cursor = MoveOrder_init 0 3 MOVE_NULL (mk_move 59 60 QUIET) False"

text \<open>Board invariant 7: the cached checkers are the enemy pieces attacking our king.\<close>

definition checkers_ok :: "Env \<Rightarrow> Board \<Rightarrow> bool" where
  "checkers_ok E b =
     (m_checkers b = attackers E b (bitscan_forward (m_pieces b KING (m_turn b)))
                       (get_pieces b) (flip (m_turn b)))"

section \<open>The invariants of a legal position\<close>

text \<open>
  The twelve (piece, colour) pairs, in the order of the loops of \<open>is_valid\<close> and in
  the order of the loops of \<open>generate_hash\<close>.
\<close>

definition all_pieces :: "(PieceType \<times> Turn) list" where
  "all_pieces = List.product piece_types [WHITE, BLACK]"

definition all_turn_pieces :: "(Turn \<times> PieceType) list" where
  "all_turn_pieces = List.product [WHITE, BLACK] piece_types"

text \<open>
  \<open>generate_hash\<close> is the XOR of three parts: the terms of the occupied squares, the
  terms of the side to move and of the en-passant file, and the terms of the castling
  rights. \<open>hash_core\<close> is what remains of the stored hash once the piece and castling
  terms are taken out of it; on a board with a correct hash it is \<open>state_hash\<close>.
\<close>

definition piece_hash :: "Env \<Rightarrow> Board \<Rightarrow> Hash" where
  "piece_hash E b =
     fold (\<lambda>(turn, piece) h. h XOR bb_fold (\<lambda>sq h. h XOR zobrist_piece_turn_square E piece turn sq)
                                     (m_pieces b piece turn) 0) all_turn_pieces 0"

definition castle_hash :: "Env \<Rightarrow> Board \<Rightarrow> Hash" where
  "castle_hash E b =
     fold (\<lambda>(side, turn) h. if m_castling_rights b side turn
                             then h XOR zobrist_castle_side_turn E side turn else h)
       (List.product [KINGSIDE, QUEENSIDE] [WHITE, BLACK]) 0"

definition state_hash :: "Env \<Rightarrow> Board \<Rightarrow> Hash" where
  "state_hash E b =
     (if m_turn b = BLACK then zobrist_black_move E else 0)
     XOR (if m_enpassant_square b \<noteq> SQUARE_NULL
          then zobrist_ep_file E (file_of (m_enpassant_square b)) else 0)"

definition hash_core :: "Env \<Rightarrow> Board \<Rightarrow> Hash" where
  "hash_core E b = m_hash b XOR piece_hash E b XOR castle_hash E b"

text \<open>
  The two sums of the material and phase loop of \<open>is_valid\<close>, by (piece, colour).
\<close>

definition phase_comp :: "Env \<Rightarrow> Board \<Rightarrow> PieceType \<times> Turn \<Rightarrow> 8 word" where
  "phase_comp E b k = (case k of (piece, turn) \<Rightarrow>
     word_of_int (bb_count (m_pieces b piece turn) * Phases_Pieces E piece))"

definition eval_comp :: "Env \<Rightarrow> Board \<Rightarrow> PieceType \<times> Turn \<Rightarrow> int \<times> int" where
  "eval_comp E b k = (case k of (piece, turn) \<Rightarrow>
     ms_add (ms_mul (ms_mul (piece_value E piece) (bb_count (m_pieces b piece turn))) (turn_to_color turn))
       (bb_fold (\<lambda>sq ev. ms_add ev (ms_mul (piece_square E piece sq turn) (turn_to_color turn)))
          (m_pieces b piece turn) (0, 0)))"

text \<open>
  Board invariants 1 and 2: on every square the mailbox names the one piece bitboard that
  holds the square, or \<open>NO_PIECE\<close> when none does. Invariants 5 and 6: the stored score
  and phase are the ones the loop of \<open>is_valid\<close> recomputes.
\<close>

definition mailbox_agrees :: "Board \<Rightarrow> bool" where
  "mailbox_agrees b =
     list_all (\<lambda>sq. m_board_pieces b sq \<noteq> Pc PIECE_NONE WHITE \<and> m_board_pieces b sq \<noteq> Pc PIECE_NONE BLACK
                 \<and> list_all (\<lambda>(piece, turn). bb_test (m_pieces b piece turn) sq
                                = (m_board_pieces b sq = Pc piece turn)) all_pieces)
       (map int [0..<64])"

definition psq_ok :: "Env \<Rightarrow> Board \<Rightarrow> bool" where
  "psq_ok E b = (material_phase E b = (m_phase b, m_psq b))"

definition piece_inv :: "Env \<Rightarrow> Board \<Rightarrow> bool" where
  "piece_inv E b = (mailbox_agrees b \<and> psq_ok E b)"

text \<open>
  A legal position, further: an en-passant square lies behind a pawn of the side that
  has just moved two squares (invariant 8), a castling right has its rook on the corner
  square, and the king of the side that has just moved is not attacked (the first check
  of \<open>is_valid\<close>). \<open>board_ok\<close> collects the invariants of a legal board.
\<close>

definition king_home :: "Turn \<Rightarrow> Square" where
  "king_home t = (if t = WHITE then 4 else 60)"

definition pawn_push :: "Turn \<Rightarrow> int" where
  "pawn_push t = (if t = WHITE then 8 else - 8)"

definition ep_ok :: "Board \<Rightarrow> bool" where
  "ep_ok b =
     (m_enpassant_square b = SQUARE_NULL
      \<or> ((if m_turn b = WHITE then 40 \<le> m_enpassant_square b \<and> m_enpassant_square b < 48
           else 16 \<le> m_enpassant_square b \<and> m_enpassant_square b < 24)
         \<and> m_board_pieces b (m_enpassant_square b) = NO_PIECE
         \<and> m_board_pieces b (m_enpassant_square b - pawn_push (m_turn b)) = Pc PAWN (flip (m_turn b))))"

definition castle_ok :: "Board \<Rightarrow> bool" where
  "castle_ok b =
     list_all (\<lambda>t.
        (if m_castling_rights b KINGSIDE t then m_board_pieces b (king_home t + 3) = Pc ROOK t else True)
      \<and> (if m_castling_rights b QUEENSIDE t then m_board_pieces b (king_home t - 4) = Pc ROOK t else True))
       [WHITE, BLACK]"

definition their_king_safe :: "Env \<Rightarrow> Board \<Rightarrow> bool" where
  "their_king_safe E b =
     (attackers E b (bitscan_forward (m_pieces b KING (flip (m_turn b)))) (get_pieces b) (m_turn b) = 0)"

definition board_ok :: "Env \<Rightarrow> Board \<Rightarrow> bool" where
  "board_ok E b =
     (mailbox_agrees b \<and> m_hash b = generate_hash E b \<and> psq_ok E b \<and> checkers_ok E b
      \<and> their_king_safe E b \<and> ep_ok b \<and> castle_ok b)"

text \<open>
  What \<open>Board::legal\<close> establishes about a move on a board whose mailbox agrees with
  the bitboards: the facts \<open>make_move\<close> relies on when it calls the piece primitives.
\<close>

definition move_facts :: "Board \<Rightarrow> Move \<Rightarrow> bool" where
  "move_facts b m =
     (let us = m_turn b; them = flip us; f = move_from m; t = move_to m;
          pc = get_piece_at b f; up = pawn_push us
      in f \<noteq> t \<and> pc \<noteq> PIECE_NONE \<and> m_board_pieces b f = Pc pc us
         \<and> (if is_capture m
             then (if is_ep_capture m
                   then pc = PAWN \<and> m_board_pieces b t = NO_PIECE \<and> 0 \<le> t - up \<and> t - up < 64
                        \<and> m_board_pieces b (t - up) = Pc PAWN them
                   else m_board_pieces b t = Pc (get_piece_at b t) them)
             else m_board_pieces b t = NO_PIECE)
         \<and> (is_double_pawn_push m \<longrightarrow>
               pc = PAWN \<and> t = f + 2 * up \<and> rank_of f = (if us = WHITE then 1 else 6)
               \<and> m_board_pieces b (f + up) = NO_PIECE)
         \<and> (move_type m = KING_CASTLE \<longrightarrow>
               pc = KING \<and> f = king_home us \<and> t = f + 2 \<and> m_castling_rights b KINGSIDE us
               \<and> m_board_pieces b (f + 1) = NO_PIECE \<and> m_board_pieces b (f + 3) = Pc ROOK us)
         \<and> (move_type m = QUEEN_CASTLE \<longrightarrow>
               pc = KING \<and> f = king_home us \<and> t = f - 2 \<and> m_castling_rights b QUEENSIDE us
               \<and> m_board_pieces b (f - 1) = NO_PIECE \<and> m_board_pieces b (f - 4) = Pc ROOK us)
         \<and> (is_promotion m \<longrightarrow> pc = PAWN)
         \<and> move_type m \<noteq> INVALID_1 \<and> move_type m \<noteq> INVALID_2)"



text \<open>
  Two positions to run the operations on: both sides with both castling rights, and the
  starting position with the line 1. e4 d5 2. exd5.
\<close>

definition castles_fen :: string where
  "castles_fen = ''r3k2r/8/8/8/8/8/8/R3K2R w KQkq - 0 1''"



section \<open>The board the constructor builds from an emitted FEN\<close>

text \<open>
  What the placement loop of the constructor does on the placement field of \<open>to_fen\<close>:
  it visits the squares rank 8 first, file a first, and calls \<open>set_piece\<close> on the occupied
  ones. \<open>fen_ranks\<close> is the placement field \<open>to_fen\<close> emits for the lowest \<open>n\<close> ranks.
\<close>

definition place :: "Env \<Rightarrow> Board \<Rightarrow> Square \<Rightarrow> Board \<Rightarrow> Board" where
  "place E b sq bd =
     (if m_board_pieces b sq = NO_PIECE then bd
      else set_piece E (get_piece_at b sq) (get_turn (m_board_pieces b sq)) sq bd)"

definition rank_squares :: "int \<Rightarrow> Square list" where
  "rank_squares rank = map (\<lambda>file. make_square rank (int file)) [0..<8]"

definition board_squares :: "nat \<Rightarrow> Square list" where
  "board_squares n = concat (map rank_squares (map int (rev [0..<n])))"

definition fen_ranks :: "Board \<Rightarrow> nat \<Rightarrow> string" where
  "fen_ranks b n =
     concat (map (\<lambda>rank. fen_rank_loop b rank (map int [0..<8]) 0
                    @ [if rank > 0 then CHR ''/'' else CHR '' ''])
               (map int (rev [0..<n])))"

text \<open>
  The body of the castling loop of the constructor, the castling field \<open>to_fen\<close> emits, and
  the board the constructor has built from the fields of \<open>to_fen b\<close> before it adds the
  hash terms of the side to move and of the en-passant file.
\<close>

definition castle_step :: "Env \<Rightarrow> char \<Rightarrow> Board \<Rightarrow> Board" where
  "castle_step E ch b =
     (if fen_castle_side ch \<noteq> NO_SIDE
      then set_castling E True (fen_castle_side ch) (if isupper ch then WHITE else BLACK) b
      else b)"

definition castle_field :: "Board \<Rightarrow> string" where
  "castle_field b =
     (let cs = concat (map (\<lambda>turn. concat (map (\<lambda>side.
                  if m_castling_rights b side turn then [fen_castle_side_char side turn] else [])
                  [KINGSIDE, QUEENSIDE])) [WHITE, BLACK])
      in if cs \<noteq> [] then cs else ''-'')"

definition parsed :: "Env \<Rightarrow> Board \<Rightarrow> Board" where
  "parsed E b =
     (fold (castle_step E) (castle_field b)
        ((fold (place E b) (board_squares 8) (empty_board E)) \<lparr> m_turn := m_turn b \<rparr>))
       \<lparr> m_enpassant_square := m_enpassant_square b,
         m_half_move_clock := m_half_move_clock b,
         m_full_move_clock := m_full_move_clock b \<rparr>"

text \<open>
  A position with castling rights and an en-passant square.
\<close>

definition ep_fen :: string where
  "ep_fen = ''r3k2r/8/8/8/4P3/8/8/R3K2R b KQkq e3 0 1''"

section \<open>Board equality\<close>

text \<open>
  C10. \<open>Board::operator==\<close> disregards the move clocks: two boards that agree on the
  hash, the side to move, the en-passant square, the castling rights and the twelve
  piece bitboards are equal for \<open>operator==\<close>, whatever their half-move and full-move
  clocks.
\<close>

theorem board_eq_ignores_clocks:
  assumes "m_hash a = m_hash b"
    and "m_turn a = m_turn b"
    and "m_enpassant_square a = m_enpassant_square b"
    and "\<forall>side \<in> {KINGSIDE, QUEENSIDE}. \<forall>turn. m_castling_rights a side turn = m_castling_rights b side turn"
    and "\<forall>piece \<in> {PAWN, KNIGHT, BISHOP, ROOK, QUEEN, KING}. \<forall>turn. m_pieces a piece turn = m_pieces b piece turn"
  shows "board_eq a b"
  using assms by (simp add: board_eq_def)

theorem board_eq_ignores_clocks_witness:
  "m_half_move_clock (empty_board std_env) \<noteq> m_half_move_clock (empty_board std_env \<lparr> m_half_move_clock := 7, m_full_move_clock := 9 \<rparr>)
   \<and> m_full_move_clock (empty_board std_env) \<noteq> m_full_move_clock (empty_board std_env \<lparr> m_half_move_clock := 7, m_full_move_clock := 9 \<rparr>)
   \<and> board_eq (empty_board std_env) (empty_board std_env \<lparr> m_half_move_clock := 7, m_full_move_clock := 9 \<rparr>)"
  using board_eq_ignores_clocks[of "empty_board std_env" "empty_board std_env \<lparr> m_half_move_clock := 7, m_full_move_clock := 9 \<rparr>"]
  by (simp add: empty_board_def)


section \<open>Position: make and unmake\<close>

text \<open>
  C8. For every position and every move (a legal one in particular),
  \<open>pos.make_move(m, extension)\<close> followed by \<open>pos.unmake_move()\<close> restores the position:
  board stack, \<open>MoveInfo\<close> stack, ply counter, extension counter and reduced flag. The
  move stack is restored provided its \<open>--\<close> undoes its \<open>++\<close>.
\<close>

theorem make_unmake_restores:
  assumes "stack_dec (stack_inc (m_stack pos)) = m_stack pos"
  shows "Position_unmake_move stack_dec (Position_make_move stack_inc E mv extension pos) = pos"
  using assms by (cases extension) (simp_all add: Position_unmake_move_def Position_make_move_def Let_def)


theorem make_unmake_restores_witness:
  "Position_unmake_move (\<lambda>s. s - 1)
     (Position_make_move (\<lambda>s. s + 1) std_env (mk_move 6 21 QUIET) True
        (Position_fen (0::int) std_env ''4k1n1/8/8/8/8/8/8/4K1N1 w - - 2 2''))
   = Position_fen (0::int) std_env ''4k1n1/8/8/8/8/8/8/4K1N1 w - - 2 2''"
  using make_unmake_restores[of "\<lambda>s. s - 1" "\<lambda>s. s + 1"
      "Position_fen (0::int) std_env ''4k1n1/8/8/8/8/8/8/4K1N1 w - - 2 2''"
      std_env "mk_move 6 21 QUIET" True]
  by simp

section \<open>Draw detection\<close>

lemma draw_loop1_unique:
  "unique \<Longrightarrow> draw_loop1 boards h unique min_pos p
     \<longleftrightarrow> (\<exists>i. min_pos \<le> i \<and> i \<le> p \<and> even (p - i) \<and> h = m_hash (boards ! nat i))"
proof (induction boards h unique min_pos p rule: draw_loop1.induct)
  case (1 boards h unique min_pos pos1)
  show ?case
  proof (cases "pos1 \<ge> min_pos")
    case False
    then show ?thesis by (subst draw_loop1.simps) auto
  next
    case ge: True
    show ?thesis
    proof (cases "h = m_hash (boards ! nat pos1)")
      case True
      have "draw_loop1 boards h unique min_pos pos1"
        using ge True "1.prems" by (subst draw_loop1.simps) simp
      moreover have "\<exists>i. min_pos \<le> i \<and> i \<le> pos1 \<and> even (pos1 - i) \<and> h = m_hash (boards ! nat i)"
        using ge True by (intro exI[of _ pos1]) simp
      ultimately show ?thesis by simp
    next
      case False
      have "draw_loop1 boards h unique min_pos pos1 = draw_loop1 boards h unique min_pos (pos1 - 2)"
        using ge False by (subst draw_loop1.simps) simp
      also have "\<dots> \<longleftrightarrow> (\<exists>i. min_pos \<le> i \<and> i \<le> pos1 - 2 \<and> even (pos1 - 2 - i) \<and> h = m_hash (boards ! nat i))"
        by (rule "1.IH"(2)[OF ge False "1.prems"])
      also have "\<dots> \<longleftrightarrow> (\<exists>i. min_pos \<le> i \<and> i \<le> pos1 \<and> even (pos1 - i) \<and> h = m_hash (boards ! nat i))"
      proof
        assume "\<exists>i. min_pos \<le> i \<and> i \<le> pos1 - 2 \<and> even (pos1 - 2 - i) \<and> h = m_hash (boards ! nat i)"
        then obtain i where "min_pos \<le> i" "i \<le> pos1 - 2" "even (pos1 - 2 - i)" "h = m_hash (boards ! nat i)"
          by blast
        then show "\<exists>i. min_pos \<le> i \<and> i \<le> pos1 \<and> even (pos1 - i) \<and> h = m_hash (boards ! nat i)"
          by (intro exI[of _ i]) simp
      next
        assume "\<exists>i. min_pos \<le> i \<and> i \<le> pos1 \<and> even (pos1 - i) \<and> h = m_hash (boards ! nat i)"
        then obtain i where i: "min_pos \<le> i" "i \<le> pos1" "even (pos1 - i)" "h = m_hash (boards ! nat i)"
          by blast
        with False have "i \<noteq> pos1" by auto
        moreover from i(3) have "i \<noteq> pos1 - 1" by auto
        ultimately have "i \<le> pos1 - 2" using i(2) by simp
        with i show "\<exists>i. min_pos \<le> i \<and> i \<le> pos1 - 2 \<and> even (pos1 - 2 - i) \<and> h = m_hash (boards ! nat i)"
          by (intro exI[of _ i]) simp
      qed
      finally show ?thesis .
    qed
  qed
qed


lemma knight_tour_summary:
  "map (\<lambda>b. (m_hash b, m_half_move_clock b)) (m_boards knight_tour)
     = [(655452283904, 2), (1311768979684760337, 3), (660503351328, 4),
        (1311768973962768177, 5), (655452283904, 6)]"
  by code_simp

lemma knight_tour_facts:
  "m_half_move_clock (board knight_tour) = 6 \<and> length (m_boards knight_tour) = 5
   \<and> m_hash (m_boards knight_tour ! 0) = m_hash (board knight_tour)"
proof -
  note s = knight_tour_summary
  have len: "length (m_boards knight_tour) = 5"
    using arg_cong[OF s, of length] by simp
  then have ne: "m_boards knight_tour \<noteq> []" by auto
  have l: "(m_hash (board knight_tour), m_half_move_clock (board knight_tour)) = (655452283904, 6)"
    using arg_cong[OF s, of last] ne by (simp add: board_def last_map)
  have f: "m_hash (m_boards knight_tour ! 0) = 655452283904"
    using arg_cong[OF s, of "\<lambda>xs. fst (xs ! 0)"] len by simp
  with len l f show ?thesis by simp
qed

text \<open>
  C7, as stated, fails: after the knight tour the half-move clock is 6 and the vector
  holds 5 boards, so \<open>n = 5\<close> and the window reaches back to board 0, which has the
  hash of the current board (offset 4); yet \<open>is_draw(true)\<close> is false, because the
  source searches only when \<open>n_moves >= 8\<close>.
\<close>

theorem is_draw_unique_counterexample:
  "m_half_move_clock (board knight_tour) = 6 \<and> length (m_boards knight_tour) = 5
   \<and> m_hash (m_boards knight_tour ! 0) = m_hash (board knight_tour)
   \<and> \<not> is_draw knight_tour True"
proof -
  have "\<not> is_draw knight_tour True"
    using knight_tour_facts by (simp add: is_draw_def Let_def)
  with knight_tour_facts show ?thesis by simp
qed

text \<open>
  C7, amended. With \<open>half_move_clock < 100\<close> and
  \<open>n = min(number of boards, half_move_clock)\<close>, \<open>is_draw(true)\<close> is true if and only if
  \<open>n >= 8\<close> and some earlier board at an even offset 4, 6, 8, ... smaller than \<open>n\<close>
  back from the current board has the hash of the current board.
\<close>

theorem is_draw_unique_window:
  assumes "m_half_move_clock (board pos) < 100"
  shows "is_draw pos True \<longleftrightarrow>
     (8 \<le> min (int (length (m_boards pos))) (m_half_move_clock (board pos))
      \<and> (\<exists>d. 4 \<le> d \<and> even d \<and> d < min (int (length (m_boards pos))) (m_half_move_clock (board pos))
            \<and> m_hash (m_boards pos ! nat (int (length (m_boards pos)) - 1 - d)) = m_hash (board pos)))"
proof -
  let ?cur = "int (length (m_boards pos)) - 1"
  let ?n = "min (int (length (m_boards pos))) (m_half_move_clock (board pos))"
  let ?h = "m_hash (board pos)"
  have "is_draw pos True \<longleftrightarrow> (8 \<le> ?n \<and> draw_loop1 (m_boards pos) ?h True (?cur - ?n + 1) (?cur - 4))"
  proof -
    have e: "?cur + 1 = int (length (m_boards pos))" by simp
    show ?thesis using assms unfolding is_draw_def Let_def e by auto
  qed
  also have "draw_loop1 (m_boards pos) ?h True (?cur - ?n + 1) (?cur - 4)
      \<longleftrightarrow> (\<exists>i. ?cur - ?n + 1 \<le> i \<and> i \<le> ?cur - 4 \<and> even (?cur - 4 - i) \<and> ?h = m_hash (m_boards pos ! nat i))"
    by (rule draw_loop1_unique) simp
  also have "\<dots> \<longleftrightarrow> (\<exists>d. 4 \<le> d \<and> even d \<and> d < ?n \<and> m_hash (m_boards pos ! nat (?cur - d)) = ?h)"
  proof
    assume "\<exists>i. ?cur - ?n + 1 \<le> i \<and> i \<le> ?cur - 4 \<and> even (?cur - 4 - i) \<and> ?h = m_hash (m_boards pos ! nat i)"
    then obtain i where i: "?cur - ?n + 1 \<le> i" "i \<le> ?cur - 4" "even (?cur - 4 - i)" "?h = m_hash (m_boards pos ! nat i)"
      by blast
    show "\<exists>d. 4 \<le> d \<and> even d \<and> d < ?n \<and> m_hash (m_boards pos ! nat (?cur - d)) = ?h"
      using i by (intro exI[of _ "?cur - i"]) auto
  next
    assume "\<exists>d. 4 \<le> d \<and> even d \<and> d < ?n \<and> m_hash (m_boards pos ! nat (?cur - d)) = ?h"
    then obtain d where d: "4 \<le> d" "even d" "d < ?n" "m_hash (m_boards pos ! nat (?cur - d)) = ?h"
      by blast
    show "\<exists>i. ?cur - ?n + 1 \<le> i \<and> i \<le> ?cur - 4 \<and> even (?cur - 4 - i) \<and> ?h = m_hash (m_boards pos ! nat i)"
      using d by (intro exI[of _ "?cur - d"]) auto
  qed
  finally show ?thesis by simp
qed


theorem is_draw_unique_window_witness:
  "m_half_move_clock (board knight_tour) < 100 \<and> \<not> is_draw knight_tour True"
proof -
  have h: "m_half_move_clock (board knight_tour) < 100"
    using knight_tour_facts by simp
  have "min (int (length (m_boards knight_tour))) (m_half_move_clock (board knight_tour)) = 5"
    using knight_tour_facts by simp
  with is_draw_unique_window[OF h] h show ?thesis by simp
qed

section \<open>The move-order cursor\<close>

lemma next_loop_None:
  "next_loop keep xs c = (None, c') \<Longrightarrow> c \<le> length xs \<Longrightarrow> c' = length xs"
proof (induction keep xs c rule: next_loop.induct)
  case (1 keep xs c)
  show ?case
  proof (cases "c \<ge> length xs")
    case True
    with "1.prems" show ?thesis by (simp add: next_loop.simps[of keep xs c])
  next
    case False
    then have k: "\<not> keep (xs ! c)" and r: "next_loop keep xs (c + 1) = (None, c')"
      using "1.prems"(1) by (auto simp: next_loop.simps[of keep xs c] split: if_splits)
    from "1.IH"[OF False k r] False show ?thesis by simp
  qed
qed

lemma next_loop_Some:
  "next_loop keep xs c = (Some mv, c') \<Longrightarrow>
     c < c' \<and> c' \<le> length xs \<and> keep mv \<and> mv \<in> set xs"
proof (induction keep xs c rule: next_loop.induct)
  case (1 keep xs c)
  have lt: "c < length xs"
    using "1.prems" by (auto simp: next_loop.simps[of keep xs c] split: if_splits)
  show ?case
  proof (cases "keep (xs ! c)")
    case True
    with lt "1.prems" show ?thesis by (auto simp: next_loop.simps[of keep xs c])
  next
    case False
    then have r: "next_loop keep xs (c + 1) = (Some mv, c')"
      using lt "1.prems" by (simp add: next_loop.simps[of keep xs c])
    from "1.IH"[OF _ False r] lt show ?thesis by simp
  qed
qed

lemma threshold_loop_mset:
  "threshold_loop score th xs pos i = (ys, n) \<Longrightarrow> pos \<le> i \<Longrightarrow> mset ys = mset xs"
proof (induction score th xs pos i arbitrary: ys n rule: threshold_loop.induct)
  case (1 score th xs pos i)
  show ?case
  proof (cases "i < length xs")
    case False
    with "1.prems" show ?thesis by (simp add: threshold_loop.simps[of score th xs pos i])
  next
    case True
    show ?thesis
    proof (cases "score (xs ! i) > th")
      case False
      with True "1.prems" have "threshold_loop score th xs pos (i + 1) = (ys, n)"
        by (simp add: threshold_loop.simps[of score th xs pos i])
      from "1.IH"(2)[OF True False this] "1.prems"(2) show ?thesis by simp
    next
      case gt: True
      let ?xs' = "if pos \<noteq> i then xs[pos := xs ! i, i := xs ! pos] else xs"
      have "threshold_loop score th ?xs' (pos + 1) (i + 1) = (ys, n)"
        using True gt "1.prems"(1) by (simp add: threshold_loop.simps[of score th xs pos i])
      then have "mset ys = mset ?xs'"
        using "1.IH"(1)[OF True gt, of ys n] "1.prems"(2) by simp
      moreover have "mset ?xs' = mset xs"
        using True "1.prems"(2) by (simp add: mset_swap)
      ultimately show ?thesis by simp
    qed
  qed
qed

lemma quiet_init_list_mset: "mset (quiet_init_list h b d xs) = mset xs"
proof -
  obtain ys n where t: "threshold_moves (quiet_score h b) (- 3000 * d) xs = (ys, n)"
    by (cases "threshold_moves (quiet_score h b) (- 3000 * d) xs")
  then have "mset ys = mset xs"
    unfolding threshold_moves_def by (rule threshold_loop_mset) simp
  moreover have "mset (sort_moves (quiet_score h b) (take n ys) @ drop n ys) = mset (take n ys @ drop n ys)"
    unfolding mset_append by (simp add: sort_moves_def)
  moreover have "quiet_init_list h b d xs = sort_moves (quiet_score h b) (take n ys) @ drop n ys"
    unfolding quiet_init_list_def t by simp
  ultimately show ?thesis by simp
qed

lemma step_post_mono:
  assumes "step_post gen E pos mo1 mv mo'"
    and "mo_potential (length (gen (board pos) GEN_CAPTURES)) (length (gen (board pos) GEN_QUIETS)) mo1
       \<le> mo_potential (length (gen (board pos) GEN_CAPTURES)) (length (gen (board pos) GEN_QUIETS)) mo"
  shows "step_post gen E pos mo mv mo'"
  using assms unfolding step_post_def by auto

lemma legal_not_null: "legal E b mv \<Longrightarrow> mv \<noteq> MOVE_NULL"
  by (auto simp: legal_def MOVE_NULL_def move_from_def move_to_def)

lemma next_move_step:
  "mo_inv gen pos mo \<Longrightarrow> next_move gen E pos h mo = (mv, mo') \<Longrightarrow> step_post gen E pos mo mv mo'"
proof (induction gen E pos h mo rule: next_move.induct)
  case (1 gen E pos h mo)
  note inv = "1.prems"(1) and nm = "1.prems"(2)
  let ?C = "length (gen (board pos) GEN_CAPTURES)"
  let ?Q = "length (gen (board pos) GEN_QUIETS)"
  show ?case
  proof (cases "m_stage mo")
    case HASH
    show ?thesis
    proof (cases "legal E (board pos) (m_hash_move mo)")
      case True
      have "mv = m_hash_move mo" "mo' = mo\<lparr>m_stage := CAPTURES_INIT\<rparr>"
        using nm True unfolding next_move.simps[of gen E pos h mo] HASH by simp_all
      with True inv HASH show ?thesis
        by (auto simp: step_post_def mo_inv_def mo_potential_def dest: legal_not_null)
    next
      case False
      let ?mo1 = "mo\<lparr>m_stage := stage_succ (m_stage mo)\<rparr>"
      have r: "next_move gen E pos h ?mo1 = (mv, mo')"
        using nm False unfolding next_move.simps[of gen E pos h mo] HASH by simp
      have i1: "mo_inv gen pos ?mo1" using inv HASH by (simp add: mo_inv_def)
      have ih: "step_post gen E pos ?mo1 mv mo'"
        by (rule "1.IH"(1)[OF HASH False i1 r])
      have le: "mo_potential ?C ?Q ?mo1 \<le> mo_potential ?C ?Q mo"
        using HASH by (simp add: mo_potential_def)
      show ?thesis by (rule step_post_mono[OF ih le])
    qed
  next
    case CAPTURES_INIT
    let ?mo1 = "mo\<lparr>m_stage := stage_succ (m_stage mo),
               mo_moves := sort_moves (capture_score (board pos)) (gen (board pos) GEN_CAPTURES),
               m_curr := 0\<rparr>"
    have r: "next_move gen E pos h ?mo1 = (mv, mo')"
      using nm unfolding next_move.simps[of gen E pos h mo] CAPTURES_INIT by simp
    have i1: "mo_inv gen pos ?mo1" using CAPTURES_INIT by (simp add: mo_inv_def sort_moves_def)
    have ih: "step_post gen E pos ?mo1 mv mo'"
      using CAPTURES_INIT by (intro "1.IH"(2)[OF _ _ i1 r]) simp_all
    have le: "mo_potential ?C ?Q ?mo1 \<le> mo_potential ?C ?Q mo"
      using CAPTURES_INIT by (simp add: mo_potential_def sort_moves_def)
    show ?thesis by (rule step_post_mono[OF ih le])
  next
    case CAPTURES
    obtain x y where xy: "next_loop (\<lambda>mv. mv \<noteq> m_hash_move mo) (mo_moves mo) (m_curr mo) = (x, y)"
      by (cases "next_loop (\<lambda>mv. mv \<noteq> m_hash_move mo) (mo_moves mo) (m_curr mo)")
    show ?thesis
    proof (cases x)
      case None
      let ?mo1 = "mo\<lparr>m_curr := y, m_stage := stage_succ (m_stage mo)\<rparr>"
      have r: "next_move gen E pos h ?mo1 = (mv, mo')"
        using nm unfolding next_move.simps[of gen E pos h mo] CAPTURES xy None by simp
      have y: "y = length (mo_moves mo)"
        using next_loop_None[OF xy[unfolded None]] inv by (simp add: mo_inv_def)
      have i1: "mo_inv gen pos ?mo1" using CAPTURES y by (simp add: mo_inv_def)
      have ih: "step_post gen E pos ?mo1 mv mo'"
        using CAPTURES by (intro "1.IH"(3)[OF _ _ _ xy[symmetric] None i1 r]) simp_all
      have le: "mo_potential ?C ?Q ?mo1 \<le> mo_potential ?C ?Q mo"
        using CAPTURES by (simp add: mo_potential_def)
      show ?thesis by (rule step_post_mono[OF ih le])
    next
      case (Some m)
      have eq: "mv = m" "mo' = mo\<lparr>m_curr := y\<rparr>"
        using nm unfolding next_move.simps[of gen E pos h mo] CAPTURES xy Some by simp_all
      from next_loop_Some[OF xy[unfolded Some]]
      have p: "m_curr mo < y" "y \<le> length (mo_moves mo)" "m \<in> set (mo_moves mo)" by auto
      have "m \<in> set (gen (board pos) GEN_CAPTURES)"
        using p(3) inv CAPTURES by (auto simp: mo_inv_def dest: mset_eq_setD)
      with p eq inv CAPTURES show ?thesis
        by (auto simp: step_post_def mo_inv_def mo_potential_def)
    qed
  next
    case CAPTURES_END
    show ?thesis
    proof (cases "m_quiescence mo \<and> \<not> Position_in_check pos")
      case True
      have "mv = MOVE_NULL" "mo' = mo"
        using nm True unfolding next_move.simps[of gen E pos h mo] CAPTURES_END by simp_all
      with True CAPTURES_END inv show ?thesis
        by (auto simp: step_post_def mo_terminal_def)
    next
      case False
      let ?mo1 = "mo\<lparr>m_stage := stage_succ (m_stage mo)\<rparr>"
      have r: "next_move gen E pos h ?mo1 = (mv, mo')"
        using nm False unfolding next_move.simps[of gen E pos h mo] CAPTURES_END by auto
      have i1: "mo_inv gen pos ?mo1" using inv CAPTURES_END by (simp add: mo_inv_def)
      have ih: "step_post gen E pos ?mo1 mv mo'"
        using CAPTURES_END by (intro "1.IH"(4)[OF _ _ _ _ False i1 r]) simp_all
      have le: "mo_potential ?C ?Q ?mo1 \<le> mo_potential ?C ?Q mo"
        using CAPTURES_END by (simp add: mo_potential_def)
      show ?thesis by (rule step_post_mono[OF ih le])
    qed
  next
    case COUNTERMOVES
    let ?c = "countermove h (m_prev_move mo)"
    show ?thesis
    proof (cases "?c \<noteq> m_hash_move mo \<and> legal E (board pos) ?c")
      case True
      have "mv = ?c" "mo' = mo\<lparr>m_stage := KILLERS, m_countermove := ?c\<rparr>"
        using nm True unfolding next_move.simps[of gen E pos h mo] COUNTERMOVES by (auto simp: Let_def)
      with True inv COUNTERMOVES show ?thesis
        by (auto simp: step_post_def mo_inv_def mo_potential_def dest: legal_not_null)
    next
      case False
      let ?mo1 = "mo\<lparr>m_stage := stage_succ (m_stage mo)\<rparr>"
      have r: "next_move gen E pos h ?mo1 = (mv, mo')"
        using nm False unfolding next_move.simps[of gen E pos h mo] COUNTERMOVES by (auto simp: Let_def)
      have i1: "mo_inv gen pos ?mo1" using inv COUNTERMOVES by (simp add: mo_inv_def)
      have ih: "step_post gen E pos ?mo1 mv mo'"
        using COUNTERMOVES by (intro "1.IH"(5)[OF _ _ _ _ _ refl False i1 r]) simp_all
      have le: "mo_potential ?C ?Q ?mo1 \<le> mo_potential ?C ?Q mo"
        using COUNTERMOVES by (simp add: mo_potential_def)
      show ?thesis by (rule step_post_mono[OF ih le])
    qed
  next
    case KILLERS
    let ?f = "find (\<lambda>candidate. candidate \<noteq> m_hash_move mo \<and> candidate \<noteq> m_countermove mo
                          \<and> legal E (board pos) candidate) (killer_candidates h (m_ply mo))"
    show ?thesis
    proof (cases ?f)
      case (Some c)
      have "mv = c" "mo' = mo\<lparr>m_stage := QUIET_INIT, m_killer := c\<rparr>"
        using nm unfolding next_move.simps[of gen E pos h mo] KILLERS Some by auto
      moreover from Some have "legal E (board pos) c" by (auto simp: find_Some_iff)
      ultimately show ?thesis using inv KILLERS
        by (auto simp: step_post_def mo_inv_def mo_potential_def dest: legal_not_null)
    next
      case None
      let ?mo1 = "mo\<lparr>m_stage := stage_succ (m_stage mo), m_killer := MOVE_NULL\<rparr>"
      have r: "next_move gen E pos h ?mo1 = (mv, mo')"
        using nm unfolding next_move.simps[of gen E pos h mo] KILLERS None by simp
      have i1: "mo_inv gen pos ?mo1" using inv KILLERS by (simp add: mo_inv_def)
      have ih: "step_post gen E pos ?mo1 mv mo'"
        using KILLERS by (intro "1.IH"(6)[OF _ _ _ _ _ _ None i1 r]) simp_all
      have le: "mo_potential ?C ?Q ?mo1 \<le> mo_potential ?C ?Q mo"
        using KILLERS by (simp add: mo_potential_def)
      show ?thesis by (rule step_post_mono[OF ih le])
    qed
  next
    case QUIET_INIT
    let ?mo1 = "mo\<lparr>m_stage := stage_succ (m_stage mo),
               mo_moves := quiet_init_list h (board pos) (m_depth mo) (gen (board pos) GEN_QUIETS),
               m_curr := 0\<rparr>"
    have r: "next_move gen E pos h ?mo1 = (mv, mo')"
      using nm unfolding next_move.simps[of gen E pos h mo] QUIET_INIT by simp
    have len: "length (quiet_init_list h (board pos) (m_depth mo) (gen (board pos) GEN_QUIETS)) = ?Q"
      using arg_cong[OF quiet_init_list_mset[of h "board pos" "m_depth mo" "gen (board pos) GEN_QUIETS"], of size]
      by simp
    have i1: "mo_inv gen pos ?mo1" using QUIET_INIT by (simp add: mo_inv_def quiet_init_list_mset)
    have ih: "step_post gen E pos ?mo1 mv mo'"
      using QUIET_INIT by (intro "1.IH"(7)[OF _ _ _ _ _ _ _ i1 r]) simp_all
    have le: "mo_potential ?C ?Q ?mo1 \<le> mo_potential ?C ?Q mo"
      using QUIET_INIT len by (simp add: mo_potential_def)
    show ?thesis by (rule step_post_mono[OF ih le])
  next
    case QUIET_STAGE
    let ?keep = "\<lambda>mv. mv \<noteq> m_hash_move mo \<and> mv \<noteq> m_killer mo \<and> mv \<noteq> m_countermove mo"
    obtain x y where xy: "next_loop ?keep (mo_moves mo) (m_curr mo) = (x, y)"
      by (cases "next_loop ?keep (mo_moves mo) (m_curr mo)")
    show ?thesis
    proof (cases x)
      case None
      let ?mo1 = "mo\<lparr>m_curr := y, m_stage := stage_succ (m_stage mo)\<rparr>"
      have r: "next_move gen E pos h ?mo1 = (mv, mo')"
        using nm unfolding next_move.simps[of gen E pos h mo] QUIET_STAGE xy None by simp
      have y: "y = length (mo_moves mo)"
        using next_loop_None[OF xy[unfolded None]] inv by (simp add: mo_inv_def)
      have i1: "mo_inv gen pos ?mo1" using QUIET_STAGE y by (simp add: mo_inv_def)
      have ih: "step_post gen E pos ?mo1 mv mo'"
        using QUIET_STAGE by (intro "1.IH"(8)[OF _ _ _ _ _ _ _ _ xy[symmetric] None i1 r]) simp_all
      have le: "mo_potential ?C ?Q ?mo1 \<le> mo_potential ?C ?Q mo"
        using QUIET_STAGE by (simp add: mo_potential_def)
      show ?thesis by (rule step_post_mono[OF ih le])
    next
      case (Some m)
      have eq: "mv = m" "mo' = mo\<lparr>m_curr := y\<rparr>"
        using nm unfolding next_move.simps[of gen E pos h mo] QUIET_STAGE xy Some by simp_all
      from next_loop_Some[OF xy[unfolded Some]]
      have p: "m_curr mo < y" "y \<le> length (mo_moves mo)" "m \<in> set (mo_moves mo)" by auto
      have "m \<in> set (gen (board pos) GEN_QUIETS)"
        using p(3) inv QUIET_STAGE by (auto simp: mo_inv_def dest: mset_eq_setD)
      with p eq inv QUIET_STAGE show ?thesis
        by (auto simp: step_post_def mo_inv_def mo_potential_def)
    qed
  next
    case NO_MOVES
    have "mv = MOVE_NULL" "mo' = mo"
      using nm unfolding next_move.simps[of gen E pos h mo] NO_MOVES by simp_all
    with NO_MOVES inv show ?thesis by (auto simp: step_post_def mo_terminal_def)
  qed
qed


lemma next_move_stage_mono:
  "next_move gen E pos h mo = (mv, mo') \<Longrightarrow> stage_index (m_stage mo) \<le> stage_index (m_stage mo')"
proof (induction gen E pos h mo rule: next_move.induct)
  case (1 gen E pos h mo)
  note nm = "1.prems"
  show ?case
  proof (cases "m_stage mo")
    case HASH
    show ?thesis
    proof (cases "legal E (board pos) (m_hash_move mo)")
      case True
      have "mo' = mo\<lparr>m_stage := CAPTURES_INIT\<rparr>"
        using nm True unfolding next_move.simps[of gen E pos h mo] HASH by simp
      with HASH show ?thesis by simp
    next
      case False
      have r: "next_move gen E pos h (mo\<lparr>m_stage := stage_succ (m_stage mo)\<rparr>) = (mv, mo')"
        using nm False unfolding next_move.simps[of gen E pos h mo] HASH by simp
      from "1.IH"(1)[OF HASH False r] HASH show ?thesis by simp
    qed
  next
    case CAPTURES_INIT
    let ?mo1 = "mo\<lparr>m_stage := stage_succ (m_stage mo),
               mo_moves := sort_moves (capture_score (board pos)) (gen (board pos) GEN_CAPTURES),
               m_curr := 0\<rparr>"
    have r: "next_move gen E pos h ?mo1 = (mv, mo')"
      using nm unfolding next_move.simps[of gen E pos h mo] CAPTURES_INIT by simp
    have "stage_index (m_stage ?mo1) \<le> stage_index (m_stage mo')"
      using CAPTURES_INIT by (intro "1.IH"(2)[OF _ _ r]) simp_all
    with CAPTURES_INIT show ?thesis by simp
  next
    case CAPTURES
    obtain x y where xy: "next_loop (\<lambda>mv. mv \<noteq> m_hash_move mo) (mo_moves mo) (m_curr mo) = (x, y)"
      by (cases "next_loop (\<lambda>mv. mv \<noteq> m_hash_move mo) (mo_moves mo) (m_curr mo)")
    show ?thesis
    proof (cases x)
      case None
      let ?mo1 = "mo\<lparr>m_curr := y, m_stage := stage_succ (m_stage mo)\<rparr>"
      have r: "next_move gen E pos h ?mo1 = (mv, mo')"
        using nm unfolding next_move.simps[of gen E pos h mo] CAPTURES xy None by simp
      have "stage_index (m_stage ?mo1) \<le> stage_index (m_stage mo')"
        using CAPTURES by (intro "1.IH"(3)[OF _ _ _ xy[symmetric] None r]) simp_all
      with CAPTURES show ?thesis by simp
    next
      case (Some m)
      have "mo' = mo\<lparr>m_curr := y\<rparr>"
        using nm unfolding next_move.simps[of gen E pos h mo] CAPTURES xy Some by simp
      then show ?thesis by simp
    qed
  next
    case CAPTURES_END
    show ?thesis
    proof (cases "m_quiescence mo \<and> \<not> Position_in_check pos")
      case True
      have "mo' = mo"
        using nm True unfolding next_move.simps[of gen E pos h mo] CAPTURES_END by simp
      then show ?thesis by simp
    next
      case False
      let ?mo1 = "mo\<lparr>m_stage := stage_succ (m_stage mo)\<rparr>"
      have r: "next_move gen E pos h ?mo1 = (mv, mo')"
        using nm False unfolding next_move.simps[of gen E pos h mo] CAPTURES_END by auto
      have "stage_index (m_stage ?mo1) \<le> stage_index (m_stage mo')"
        using CAPTURES_END by (intro "1.IH"(4)[OF _ _ _ _ False r]) simp_all
      with CAPTURES_END show ?thesis by simp
    qed
  next
    case COUNTERMOVES
    let ?c = "countermove h (m_prev_move mo)"
    show ?thesis
    proof (cases "?c \<noteq> m_hash_move mo \<and> legal E (board pos) ?c")
      case True
      have "mo' = mo\<lparr>m_stage := KILLERS, m_countermove := ?c\<rparr>"
        using nm True unfolding next_move.simps[of gen E pos h mo] COUNTERMOVES by (auto simp: Let_def)
      with COUNTERMOVES show ?thesis by simp
    next
      case False
      let ?mo1 = "mo\<lparr>m_stage := stage_succ (m_stage mo)\<rparr>"
      have r: "next_move gen E pos h ?mo1 = (mv, mo')"
        using nm False unfolding next_move.simps[of gen E pos h mo] COUNTERMOVES by (auto simp: Let_def)
      have "stage_index (m_stage ?mo1) \<le> stage_index (m_stage mo')"
        using COUNTERMOVES by (intro "1.IH"(5)[OF _ _ _ _ _ refl False r]) simp_all
      with COUNTERMOVES show ?thesis by simp
    qed
  next
    case KILLERS
    let ?f = "find (\<lambda>candidate. candidate \<noteq> m_hash_move mo \<and> candidate \<noteq> m_countermove mo
                          \<and> legal E (board pos) candidate) (killer_candidates h (m_ply mo))"
    show ?thesis
    proof (cases ?f)
      case (Some c)
      have "mo' = mo\<lparr>m_stage := QUIET_INIT, m_killer := c\<rparr>"
        using nm unfolding next_move.simps[of gen E pos h mo] KILLERS Some by auto
      with KILLERS show ?thesis by simp
    next
      case None
      let ?mo1 = "mo\<lparr>m_stage := stage_succ (m_stage mo), m_killer := MOVE_NULL\<rparr>"
      have r: "next_move gen E pos h ?mo1 = (mv, mo')"
        using nm unfolding next_move.simps[of gen E pos h mo] KILLERS None by simp
      have "stage_index (m_stage ?mo1) \<le> stage_index (m_stage mo')"
        using KILLERS by (intro "1.IH"(6)[OF _ _ _ _ _ _ None r]) simp_all
      with KILLERS show ?thesis by simp
    qed
  next
    case QUIET_INIT
    let ?mo1 = "mo\<lparr>m_stage := stage_succ (m_stage mo),
               mo_moves := quiet_init_list h (board pos) (m_depth mo) (gen (board pos) GEN_QUIETS),
               m_curr := 0\<rparr>"
    have r: "next_move gen E pos h ?mo1 = (mv, mo')"
      using nm unfolding next_move.simps[of gen E pos h mo] QUIET_INIT by simp
    have "stage_index (m_stage ?mo1) \<le> stage_index (m_stage mo')"
      using QUIET_INIT by (intro "1.IH"(7)[OF _ _ _ _ _ _ _ r]) simp_all
    with QUIET_INIT show ?thesis by simp
  next
    case QUIET_STAGE
    let ?keep = "\<lambda>mv. mv \<noteq> m_hash_move mo \<and> mv \<noteq> m_killer mo \<and> mv \<noteq> m_countermove mo"
    obtain x y where xy: "next_loop ?keep (mo_moves mo) (m_curr mo) = (x, y)"
      by (cases "next_loop ?keep (mo_moves mo) (m_curr mo)")
    show ?thesis
    proof (cases x)
      case None
      let ?mo1 = "mo\<lparr>m_curr := y, m_stage := stage_succ (m_stage mo)\<rparr>"
      have r: "next_move gen E pos h ?mo1 = (mv, mo')"
        using nm unfolding next_move.simps[of gen E pos h mo] QUIET_STAGE xy None by simp
      have "stage_index (m_stage ?mo1) \<le> stage_index (m_stage mo')"
        using QUIET_STAGE by (intro "1.IH"(8)[OF _ _ _ _ _ _ _ _ xy[symmetric] None r]) simp_all
      with QUIET_STAGE show ?thesis by simp
    next
      case (Some m)
      have "mo' = mo\<lparr>m_curr := y\<rparr>"
        using nm unfolding next_move.simps[of gen E pos h mo] QUIET_STAGE xy Some by simp
      then show ?thesis by simp
    qed
  next
    case NO_MOVES
    have "mo' = mo"
      using nm unfolding next_move.simps[of gen E pos h mo] NO_MOVES by simp
    then show ?thesis by simp
  qed
qed

lemma mo_terminal_fixpoint:
  "mo_terminal pos mo \<Longrightarrow> next_move gen E pos h mo = (MOVE_NULL, mo)"
  unfolding mo_terminal_def by (subst next_move.simps) auto

lemma after_calls_Suc:
  "after_calls gen E pos h (Suc n) mo = snd (next_move gen E pos h (after_calls gen E pos h n mo))"
  by (induction n arbitrary: mo) simp_all

lemma after_calls_add:
  "after_calls gen E pos h (n + k) mo = after_calls gen E pos h k (after_calls gen E pos h n mo)"
  by (induction n arbitrary: mo) simp_all

lemma after_calls_inv:
  assumes "mo_inv gen pos mo"
  shows "mo_inv gen pos (after_calls gen E pos h n mo)"
proof (induction n)
  case 0
  show ?case using assms by simp
next
  case (Suc n)
  obtain mv mo' where nm: "next_move gen E pos h (after_calls gen E pos h n mo) = (mv, mo')"
    by (cases "next_move gen E pos h (after_calls gen E pos h n mo)")
  from next_move_step[OF Suc nm] have "mo_inv gen pos mo'"
    by (simp add: step_post_def)
  then show ?case by (simp only: after_calls_Suc nm snd_conv)
qed

lemma terminal_after_calls:
  "mo_terminal pos mo \<Longrightarrow> after_calls gen E pos h k mo = mo"
  by (induction k) (simp_all add: mo_terminal_fixpoint)

lemma null_stays_null:
  assumes nn: "MOVE_NULL \<notin> set (gen (board pos) GEN_CAPTURES)"
      "MOVE_NULL \<notin> set (gen (board pos) GEN_QUIETS)"
    and inv: "mo_inv gen pos mo"
    and null: "nth_call gen E pos h n mo = MOVE_NULL"
    and le: "n \<le> m"
  shows "nth_call gen E pos h m mo = MOVE_NULL"
proof (cases "m = n")
  case True
  with null show ?thesis by simp
next
  case False
  with le obtain k where m: "m = Suc n + k" by (metis add_Suc less_iff_Suc_add nat_less_le)
  let ?s = "after_calls gen E pos h n mo"
  obtain mv s' where nm: "next_move gen E pos h ?s = (mv, s')"
    by (cases "next_move gen E pos h ?s")
  have mv: "mv = MOVE_NULL" using null nm by (simp add: nth_call_def)
  have "step_post gen E pos ?s mv s'"
    by (rule next_move_step[OF after_calls_inv[OF inv] nm])
  then have tm: "mo_terminal pos s'" using mv nn by (simp add: step_post_def)
  have "after_calls gen E pos h (Suc n) mo = s'"
    by (simp only: after_calls_Suc nm snd_conv)
  then have "after_calls gen E pos h m mo = s'"
    unfolding m after_calls_add using terminal_after_calls[OF tm] by simp
  then show ?thesis
    by (simp add: nth_call_def mo_terminal_fixpoint[OF tm])
qed

lemma null_within_potential:
  shows "mo_inv gen pos mo \<Longrightarrow>
    \<exists>n \<le> mo_potential (length (gen (board pos) GEN_CAPTURES)) (length (gen (board pos) GEN_QUIETS)) mo.
       nth_call gen E pos h n mo = MOVE_NULL"
proof (induction "mo_potential (length (gen (board pos) GEN_CAPTURES)) (length (gen (board pos) GEN_QUIETS)) mo"
        arbitrary: mo rule: less_induct)
  case less
  obtain mv mo' where nm: "next_move gen E pos h mo = (mv, mo')"
    by (cases "next_move gen E pos h mo")
  have sp: "step_post gen E pos mo mv mo'"
    by (rule next_move_step[OF less.prems nm])
  show ?case
  proof (cases "mv = MOVE_NULL")
    case True
    then have "nth_call gen E pos h 0 mo = MOVE_NULL" using nm by (simp add: nth_call_def)
    then show ?thesis by blast
  next
    case False
    with sp have lt: "mo_potential (length (gen (board pos) GEN_CAPTURES)) (length (gen (board pos) GEN_QUIETS)) mo'
        < mo_potential (length (gen (board pos) GEN_CAPTURES)) (length (gen (board pos) GEN_QUIETS)) mo"
      and inv': "mo_inv gen pos mo'" by (simp_all add: step_post_def)
    from less.hyps[OF lt inv'] obtain n where
      n: "n \<le> mo_potential (length (gen (board pos) GEN_CAPTURES)) (length (gen (board pos) GEN_QUIETS)) mo'"
      and z: "nth_call gen E pos h n mo' = MOVE_NULL" by blast
    have "nth_call gen E pos h (Suc n) mo = MOVE_NULL"
      using z nm by (simp add: nth_call_def)
    moreover have "Suc n \<le> mo_potential (length (gen (board pos) GEN_CAPTURES)) (length (gen (board pos) GEN_QUIETS)) mo"
      using n lt by simp
    ultimately show ?thesis by blast
  qed
qed

lemma mo_inv_init: "mo_inv gen pos (MoveOrder_init ply depth hm pm q)"
  by (simp add: mo_inv_def MoveOrder_init_def)


text \<open>
  C9. A cursor constructed on a position returns \<open>MOVE_NULL\<close> after at most
  \<open>|captures| + |quiets| + 6\<close> calls of \<open>next_move()\<close>, the two numbers being the
  lengths of the generator's pseudo-legal CAPTURES and QUIETS lists; once a call has
  returned \<open>MOVE_NULL\<close> every later call returns \<open>MOVE_NULL\<close>; and the stage never
  goes back. The generator is assumed not to emit \<open>MOVE_NULL\<close>.
\<close>

theorem next_move_reaches_null:
  assumes "MOVE_NULL \<notin> set (gen (board pos) GEN_CAPTURES)"
    and "MOVE_NULL \<notin> set (gen (board pos) GEN_QUIETS)"
  shows "(\<exists>n. n < length (gen (board pos) GEN_CAPTURES) + length (gen (board pos) GEN_QUIETS) + 6
            \<and> nth_call gen E pos h n (MoveOrder_init ply depth hm pm q) = MOVE_NULL)
       \<and> (\<forall>n m. nth_call gen E pos h n (MoveOrder_init ply depth hm pm q) = MOVE_NULL \<and> n \<le> m
            \<longrightarrow> nth_call gen E pos h m (MoveOrder_init ply depth hm pm q) = MOVE_NULL)
       \<and> (\<forall>n. stage_index (m_stage (after_calls gen E pos h n (MoveOrder_init ply depth hm pm q)))
            \<le> stage_index (m_stage (after_calls gen E pos h (Suc n) (MoveOrder_init ply depth hm pm q))))"
proof (intro conjI allI impI)
  let ?mo = "MoveOrder_init ply depth hm pm q"
  have "mo_inv gen pos ?mo" by (rule mo_inv_init)
  from null_within_potential[OF this, of E h]
  obtain n where n: "n \<le> mo_potential (length (gen (board pos) GEN_CAPTURES))
         (length (gen (board pos) GEN_QUIETS)) ?mo"
    and z: "nth_call gen E pos h n ?mo = MOVE_NULL" by blast
  have "mo_potential (length (gen (board pos) GEN_CAPTURES)) (length (gen (board pos) GEN_QUIETS)) ?mo
      = length (gen (board pos) GEN_CAPTURES) + length (gen (board pos) GEN_QUIETS) + 3"
    by (simp add: mo_potential_def MoveOrder_init_def)
  with n z show "\<exists>n. n < length (gen (board pos) GEN_CAPTURES) + length (gen (board pos) GEN_QUIETS) + 6
            \<and> nth_call gen E pos h n ?mo = MOVE_NULL"
    by (intro exI[of _ n]) simp
next
  fix n m
  assume "nth_call gen E pos h n (MoveOrder_init ply depth hm pm q) = MOVE_NULL \<and> n \<le> m"
  then show "nth_call gen E pos h m (MoveOrder_init ply depth hm pm q) = MOVE_NULL"
    using null_stays_null[OF assms mo_inv_init[of gen pos ply depth hm pm q], of E h n m] by blast
next
  fix n
  let ?s = "after_calls gen E pos h n (MoveOrder_init ply depth hm pm q)"
  obtain mv s' where nm: "next_move gen E pos h ?s = (mv, s')"
    by (cases "next_move gen E pos h ?s")
  from next_move_stage_mono[OF nm]
  show "stage_index (m_stage ?s)
      \<le> stage_index (m_stage (after_calls gen E pos h (Suc n) (MoveOrder_init ply depth hm pm q)))"
    by (simp only: after_calls_Suc nm snd_conv)
qed



theorem next_move_reaches_null_witness:
  "MOVE_NULL \<notin> set (knights_gen (board (Position_fen (0::int) std_env knights_fen)) GEN_CAPTURES)
   \<and> MOVE_NULL \<notin> set (knights_gen (board (Position_fen (0::int) std_env knights_fen)) GEN_QUIETS)
   \<and> (\<exists>n. n < 14 \<and> nth_call knights_gen std_env (Position_fen (0::int) std_env knights_fen)
                Histories_clear n (MoveOrder_init 0 1 MOVE_NULL MOVE_NULL False) = MOVE_NULL)"
proof -
  have a: "MOVE_NULL \<notin> set (knights_gen (board (Position_fen (0::int) std_env knights_fen)) GEN_CAPTURES)"
    by (simp add: knights_gen_def)
  have b: "MOVE_NULL \<notin> set (knights_gen (board (Position_fen (0::int) std_env knights_fen)) GEN_QUIETS)"
    by (simp add: knights_gen_def MOVE_NULL_def mk_move_def)
  from next_move_reaches_null[where gen = knights_gen
      and pos = "Position_fen (0::int) std_env knights_fen" and E = std_env
      and h = Histories_clear and ply = 0 and depth = 1 and hm = MOVE_NULL and pm = MOVE_NULL
      and q = False, OF a b]
  have "\<exists>n. n < length (knights_gen (board (Position_fen (0::int) std_env knights_fen)) GEN_CAPTURES)
            + length (knights_gen (board (Position_fen (0::int) std_env knights_fen)) GEN_QUIETS) + 6
          \<and> nth_call knights_gen std_env (Position_fen (0::int) std_env knights_fen)
                Histories_clear n (MoveOrder_init 0 1 MOVE_NULL MOVE_NULL False) = MOVE_NULL"
    by blast
  then have "\<exists>n. n < 14 \<and> nth_call knights_gen std_env (Position_fen (0::int) std_env knights_fen)
                Histories_clear n (MoveOrder_init 0 1 MOVE_NULL MOVE_NULL False) = MOVE_NULL"
    by (simp add: knights_gen_def)
  with a b show ?thesis by simp
qed







lemma killer_calls:
  "nth_call knights_gen std_env (Position_fen (0::int) std_env knights_fen) killer_histories 0 killer_cursor
     = mk_move 6 21 QUIET
   \<and> m_stage (after_calls knights_gen std_env (Position_fen (0::int) std_env knights_fen) killer_histories 1 killer_cursor)
     = QUIET_INIT
   \<and> nth_call knights_gen std_env (Position_fen (0::int) std_env knights_fen) killer_histories 1 killer_cursor
     = mk_move 4 3 QUIET
   \<and> m_stage (after_calls knights_gen std_env (Position_fen (0::int) std_env knights_fen) killer_histories 2 killer_cursor)
     = QUIET_STAGE"
  by code_simp

lemma second_killer:
  "get_killer killer_histories 1 (m_ply killer_cursor) = mk_move 6 23 QUIET
   \<and> mk_move 6 23 QUIET \<noteq> m_hash_move killer_cursor
   \<and> mk_move 6 23 QUIET \<noteq> countermove killer_histories (m_prev_move killer_cursor)
   \<and> legal std_env (board (Position_fen (0::int) std_env knights_fen)) (mk_move 6 23 QUIET)"
  by code_simp

text \<open>
  C5, as stated, fails: with the killers Ng1-f3 and Ng1-h3 stored for the ply, both legal
  and different from hash move and countermove, the first call returns Ng1-f3 and leaves
  the cursor in QUIET\_INIT; the second call returns the quiet move Ke1-d1, from the
  QUIET stage. The KILLERS stage has yielded one killer, not one per stored killer.
\<close>

theorem killers_stage_counterexample:
  "nth_call knights_gen std_env (Position_fen (0::int) std_env knights_fen) killer_histories 0 killer_cursor
     = mk_move 6 21 QUIET
   \<and> m_stage (after_calls knights_gen std_env (Position_fen (0::int) std_env knights_fen) killer_histories 1 killer_cursor)
     = QUIET_INIT
   \<and> nth_call knights_gen std_env (Position_fen (0::int) std_env knights_fen) killer_histories 1 killer_cursor
     = mk_move 4 3 QUIET
   \<and> get_killer killer_histories 1 (m_ply killer_cursor) = mk_move 6 23 QUIET
   \<and> mk_move 6 23 QUIET \<noteq> m_hash_move killer_cursor
   \<and> mk_move 6 23 QUIET \<noteq> countermove killer_histories (m_prev_move killer_cursor)
   \<and> legal std_env (board (Position_fen (0::int) std_env knights_fen)) (mk_move 6 23 QUIET)"
  using killer_calls second_killer by simp

text \<open>
  C5, amended. A call of \<open>next_move()\<close> in the KILLERS stage leaves that stage, so the
  stage yields at most one killer: the first of the \<open>NUM_KILLERS\<close> stored killers, in
  slot order, that differs from the hash move and the countermove and is legal is the
  move returned, it is recorded in \<open>m_killer\<close>, and the cursor is then in QUIET\_INIT.
\<close>

theorem killers_stage_yields_one:
  assumes "m_stage mo = KILLERS"
    and "next_move gen E pos h mo = (mv, mo')"
  shows "stage_index KILLERS < stage_index (m_stage mo')
       \<and> (\<forall>i < NUM_KILLERS.
            (get_killer h i (m_ply mo) \<noteq> m_hash_move mo \<and> get_killer h i (m_ply mo) \<noteq> m_countermove mo
               \<and> legal E (board pos) (get_killer h i (m_ply mo)))
            \<and> (\<forall>j < i. \<not> (get_killer h j (m_ply mo) \<noteq> m_hash_move mo
                   \<and> get_killer h j (m_ply mo) \<noteq> m_countermove mo
                   \<and> legal E (board pos) (get_killer h j (m_ply mo))))
            \<longrightarrow> mv = get_killer h i (m_ply mo) \<and> m_killer mo' = mv \<and> m_stage mo' = QUIET_INIT)"
proof -
  let ?P = "\<lambda>candidate. candidate \<noteq> m_hash_move mo \<and> candidate \<noteq> m_countermove mo
                          \<and> legal E (board pos) candidate"
  let ?f = "find ?P (killer_candidates h (m_ply mo))"
  have len: "length (killer_candidates h (m_ply mo)) = NUM_KILLERS"
    by (simp add: killer_candidates_def)
  have nth: "\<And>i. i < NUM_KILLERS \<Longrightarrow> killer_candidates h (m_ply mo) ! i = get_killer h i (m_ply mo)"
    by (simp add: killer_candidates_def)
  show ?thesis
  proof (cases ?f)
    case None
    let ?mo1 = "mo\<lparr>m_stage := stage_succ (m_stage mo), m_killer := MOVE_NULL\<rparr>"
    have r: "next_move gen E pos h ?mo1 = (mv, mo')"
      using assms(2) unfolding next_move.simps[of gen E pos h mo] assms(1) None by simp
    from next_move_stage_mono[OF r] assms(1) have "stage_index KILLERS < stage_index (m_stage mo')"
      by simp
    moreover have "\<And>i. i < NUM_KILLERS \<Longrightarrow> \<not> ?P (get_killer h i (m_ply mo))"
      using None len nth unfolding find_None_iff by (metis nth_mem)
    ultimately show ?thesis by blast
  next
    case (Some c)
    have eq: "mv = c" "mo' = mo\<lparr>m_stage := QUIET_INIT, m_killer := c\<rparr>"
      using assms(2) unfolding next_move.simps[of gen E pos h mo] assms(1) Some by auto
    from Some obtain k where k: "k < NUM_KILLERS" "?P (killer_candidates h (m_ply mo) ! k)"
        "c = killer_candidates h (m_ply mo) ! k"
        "\<forall>j<k. \<not> ?P (killer_candidates h (m_ply mo) ! j)"
      unfolding find_Some_iff len by blast
    have "\<And>i. i < NUM_KILLERS \<Longrightarrow> ?P (get_killer h i (m_ply mo)) \<Longrightarrow>
            (\<forall>j < i. \<not> ?P (get_killer h j (m_ply mo))) \<Longrightarrow> c = get_killer h i (m_ply mo)"
    proof -
      fix i assume i: "i < NUM_KILLERS" "?P (get_killer h i (m_ply mo))"
        "\<forall>j < i. \<not> ?P (get_killer h j (m_ply mo))"
      have "\<not> k < i" using i(3) k(1,2) nth by force
      moreover have "\<not> i < k" using k(4) i(1,2) nth by force
      ultimately have "i = k" by simp
      with k(3) nth i(1) show "c = get_killer h i (m_ply mo)" by simp
    qed
    with eq show ?thesis by auto
  qed
qed


theorem killers_stage_yields_one_witness:
  "m_stage (killer_cursor \<lparr> m_stage := KILLERS \<rparr>) = KILLERS
   \<and> stage_index KILLERS < stage_index (m_stage (snd (next_move knights_gen std_env
        (Position_fen (0::int) std_env knights_fen) killer_histories (killer_cursor \<lparr> m_stage := KILLERS \<rparr>))))"
  using killers_stage_yields_one[of "killer_cursor \<lparr> m_stage := KILLERS \<rparr>" knights_gen std_env
      "Position_fen (0::int) std_env knights_fen" killer_histories
      "fst (next_move knights_gen std_env (Position_fen (0::int) std_env knights_fen) killer_histories
              (killer_cursor \<lparr> m_stage := KILLERS \<rparr>))"
      "snd (next_move knights_gen std_env (Position_fen (0::int) std_env knights_fen) killer_histories
              (killer_cursor \<lparr> m_stage := KILLERS \<rparr>))"]
  by simp

section \<open>Null move\<close>

lemma flip_flip: "flip (flip t) = t"
  by (cases t) simp_all

lemma null_move_fields:
  "m_pieces (make_null_move E b) = m_pieces b"
  "m_turn (make_null_move E b) = flip (m_turn b)"
  "m_checkers (make_null_move E b) = m_checkers b"
  "get_pieces (make_null_move E b) = get_pieces b"
  by (simp_all add: make_null_move_def Let_def get_pieces_def get_pieces_turn_def)

lemma attackers_cong: "m_pieces a = m_pieces b \<Longrightarrow> attackers E a sq occ t = attackers E b sq occ t"
  by (simp add: attackers_def)

text \<open>
  C6. \<open>make_null_move()\<close> copies the cached checkers. A null move is made only when the
  side to move is not in check, so the cache is empty; on a board that passes
  \<open>is_valid()\<close> no piece of the side to move attacks the other king, which is the king
  of the side to move after the null move. The cached checkers bitboard then equals the
  set of enemy pieces attacking the new side-to-move's king on the current occupancy.
\<close>

theorem null_move_keeps_checkers:
  assumes "is_valid E b" and "m_checkers b = 0"
  shows "checkers_ok E (make_null_move E b)"
proof -
  have "attackers E b (bitscan_forward (m_pieces b KING (flip (m_turn b)))) (get_pieces b) (m_turn b) = 0"
    using assms(1) by (simp add: is_valid_def Let_def split: if_splits)
  then show ?thesis
    using assms(2) attackers_cong[OF null_move_fields(1)[of E b], of E]
    by (simp add: checkers_ok_def null_move_fields flip_flip)
qed

lemma knights_not_in_check:
  "is_valid std_env (Board_fen std_env knights_fen) \<and> m_checkers (Board_fen std_env knights_fen) = 0"
  by code_simp

theorem null_move_keeps_checkers_witness:
  "is_valid std_env (Board_fen std_env knights_fen)
   \<and> m_checkers (Board_fen std_env knights_fen) = 0
   \<and> checkers_ok std_env (make_null_move std_env (Board_fen std_env knights_fen))"
  using null_move_keeps_checkers[of std_env "Board_fen std_env knights_fen"] knights_not_in_check
  by simp

section \<open>Bitboards and folds over their squares\<close>

lemma bb_test_set: "0 \<le> sq \<Longrightarrow> sq < 64 \<Longrightarrow> 0 \<le> s \<Longrightarrow>
    bb_test (bb_set bb sq) s \<longleftrightarrow> (s = sq \<or> bb_test bb s)"
  by (auto simp: bb_test_def bb_set_def bit_set_bit_iff nat_eq_iff)

lemma bb_test_reset: "0 \<le> sq \<Longrightarrow> 0 \<le> s \<Longrightarrow>
    bb_test (bb_reset bb sq) s \<longleftrightarrow> (s \<noteq> sq \<and> bb_test bb s)"
  by (auto simp: bb_test_def bb_reset_def bit_unset_bit_iff nat_eq_iff)

lemma bb_test_or: "bb_test (a OR b) s \<longleftrightarrow> bb_test a s \<or> bb_test b s"
  by (simp add: bb_test_def bit_or_iff)

lemma bb_test_and: "bb_test (a AND b) s \<longleftrightarrow> bb_test a s \<and> bb_test b s"
  by (simp add: bb_test_def bit_and_iff)

lemma bb_test_not: "s < 64 \<Longrightarrow> bb_test (NOT a) s \<longleftrightarrow> \<not> bb_test a s"
proof -
  assume "s < 64"
  then have "nat s < 64" by linarith
  then show ?thesis by (simp add: bb_test_def bit_not_iff)
qed

lemma bb_test_zero: "\<not> bb_test 0 s"
  by (simp add: bb_test_def)

lemma bb_squares_lsb:
  assumes "bb \<noteq> 0"
  shows "bb_squares bb = nat (bitscan_forward bb) # bb_squares (bb_reset bb (bitscan_forward bb))"
proof -
  let ?n = "nat (bitscan_forward bb)"
  note p = bitscan_forward_props[OF assms]
  have n64: "?n < 64" using p(1,2) by simp
  have split: "[0..<64] = [0..<?n] @ ?n # [Suc ?n..<64]"
    using n64 by (metis less_imp_le_nat upt_add_eq_append upt_conv_Cons le0 add_0 le_add_diff_inverse)
  have a: "filter (bit bb) [0..<?n] = []" using p(4) by (auto simp: filter_empty_conv)
  have b: "filter (bit (bb_reset bb (bitscan_forward bb))) [0..<?n] = []"
    using p(4) by (auto simp: filter_empty_conv bb_reset_def bit_unset_bit_iff)
  have c: "filter (bit (bb_reset bb (bitscan_forward bb))) [Suc ?n..<64] = filter (bit bb) [Suc ?n..<64]"
    by (rule filter_cong) (auto simp: bb_reset_def bit_unset_bit_iff)
  have d: "\<not> bit (bb_reset bb (bitscan_forward bb)) ?n"
    by (simp add: bb_reset_def bit_unset_bit_iff)
  show ?thesis
    unfolding bb_squares_def
    by (subst (1 2) split) (simp add: a b c d p(3) del: upt_Suc)
qed

lemma bb_fold_squares: "bb_fold f bb acc = fold (\<lambda>i. f (int i)) (bb_squares bb) acc"
proof (induction f bb acc rule: bb_fold.induct)
  case (1 f bb acc)
  show ?case
  proof (cases "bb = 0")
    case True
    show ?thesis unfolding True by (subst bb_fold.simps) (simp add: bb_squares_def)
  next
    case False
    note p = bitscan_forward_props[OF False]
    have "bb_fold f bb acc = bb_fold f (bb_reset bb (bitscan_forward bb)) (f (bitscan_forward bb) acc)"
      using False by (simp add: bb_fold.simps[of f bb acc] Let_def)
    also have "\<dots> = fold (\<lambda>i. f (int i)) (bb_squares (bb_reset bb (bitscan_forward bb))) (f (bitscan_forward bb) acc)"
      by (rule "1.IH"[OF False refl])
    also have "\<dots> = fold (\<lambda>i. f (int i)) (bb_squares bb) acc"
      using p(1) by (simp add: bb_squares_lsb[OF False])
    finally show ?thesis .
  qed
qed

text \<open>Folding a right-commutative operation over the squares of a bitboard.\<close>

lemma fold_filter_insert:
  assumes rc: "\<And>a x y. op (op a x) y = op (op a y) x"
    and "distinct xs" "n \<in> set xs" "\<not> P n"
  shows "fold (\<lambda>i a. op a (g i)) (filter (\<lambda>i. i = n \<or> P i) xs) acc
       = op (fold (\<lambda>i a. op a (g i)) (filter P xs) acc) (g n)"
  using assms(2,3)
proof (induction xs arbitrary: acc)
  case Nil
  then show ?case by simp
next
  case (Cons x xs)
  have mv: "\<And>ys a. fold (\<lambda>i a. op a (g i)) ys (op a (g n)) = op (fold (\<lambda>i a. op a (g i)) ys a) (g n)"
  proof -
    fix ys a show "fold (\<lambda>i a. op a (g i)) ys (op a (g n)) = op (fold (\<lambda>i a. op a (g i)) ys a) (g n)"
      by (induction ys arbitrary: a) (simp_all add: rc)
  qed
  show ?case
  proof (cases "x = n")
    case True
    then have "n \<notin> set xs" using Cons.prems by simp
    then have "filter (\<lambda>i. i = n \<or> P i) xs = filter P xs"
      by (intro filter_cong) auto
    with True assms(4) show ?thesis by (simp add: mv)
  next
    case False
    with Cons show ?thesis by simp
  qed
qed

lemma bb_squares_set:
  assumes "0 \<le> sq" "sq < 64"
  shows "bb_squares (bb_set bb sq) = filter (\<lambda>i. i = nat sq \<or> bit bb i) [0..<64]"
  unfolding bb_squares_def using assms
  by (intro filter_cong) (auto simp: bb_set_def bit_set_bit_iff)

lemma bb_squares_reset:
  "bb_squares (bb_reset bb sq) = filter (\<lambda>i. bit bb i \<and> i \<noteq> nat sq) [0..<64]"
  unfolding bb_squares_def
  by (intro filter_cong) (auto simp: bb_reset_def bit_unset_bit_iff)

lemma bb_fold_set:
  assumes rc: "\<And>a x y. op (op a x) y = op (op a y) x"
    and "0 \<le> sq" "sq < 64" "\<not> bb_test bb sq"
  shows "bb_fold (\<lambda>s a. op a (g s)) (bb_set bb sq) acc = op (bb_fold (\<lambda>s a. op a (g s)) bb acc) (g sq)"
proof -
  have "fold (\<lambda>i a. op a (g (int i))) (filter (\<lambda>i. i = nat sq \<or> bit bb i) [0..<64]) acc
      = op (fold (\<lambda>i a. op a (g (int i))) (filter (bit bb) [0..<64]) acc) (g (int (nat sq)))"
    using assms(2-4) by (intro fold_filter_insert[where g = "\<lambda>i. g (int i)"] rc) (auto simp: bb_test_def)
  then show ?thesis
    using assms(2,3) by (simp add: bb_fold_squares bb_squares_set) (simp add: bb_squares_def)
qed

lemma bb_fold_reset:
  assumes rc: "\<And>a x y. op (op a x) y = op (op a y) x"
    and "0 \<le> sq" "sq < 64" "bb_test bb sq"
  shows "op (bb_fold (\<lambda>s a. op a (g s)) (bb_reset bb sq) acc) (g sq) = bb_fold (\<lambda>s a. op a (g s)) bb acc"
proof -
  have "bb_set (bb_reset bb sq) sq = bb"
    using assms(4) unfolding bb_set_def bb_reset_def bb_test_def
    by (intro bit_eqI) (auto simp: bit_set_bit_iff bit_unset_bit_iff)
  moreover have "\<not> bb_test (bb_reset bb sq) sq"
    by (simp add: bb_test_def bb_reset_def bit_unset_bit_iff)
  ultimately show ?thesis
    using bb_fold_set[where op = op and bb = "bb_reset bb sq" and g = g and acc = acc and sq = sq, OF rc assms(2,3)]
    by simp
qed

lemma fold_product:
  "fold (\<lambda>x. fold (f x) ys) xs = fold (\<lambda>(x, y). f x y) (List.product xs ys)"
proof (induction xs)
  case Nil
  show ?case by simp
next
  case (Cons x xs)
  have "fold (\<lambda>(x, y). f x y) (map (Pair x) ys) = fold (f x) ys"
    by (simp add: fold_map comp_def)
  with Cons show ?case by (simp add: fun_eq_iff)
qed

lemma fold_point_update:
  assumes rc: "\<And>a x y. op (op a x) y = op (op a y) x"
    and "distinct ks" "k0 \<in> set ks"
    and same: "\<And>k. k \<in> set ks \<Longrightarrow> k \<noteq> k0 \<Longrightarrow> G k = F k"
    and diff: "\<And>a. op a (G k0) = op (op a (F k0)) d"
  shows "fold (\<lambda>k a. op a (G k)) ks acc = op (fold (\<lambda>k a. op a (F k)) ks acc) d"
  using assms(2,3,4)
proof (induction ks arbitrary: acc)
  case Nil
  then show ?case by simp
next
  case (Cons k ks)
  have mv: "\<And>ys a. fold (\<lambda>k a. op a (F k)) ys (op a d) = op (fold (\<lambda>k a. op a (F k)) ys a) d"
  proof -
    fix ys a show "fold (\<lambda>k a. op a (F k)) ys (op a d) = op (fold (\<lambda>k a. op a (F k)) ys a) d"
    proof (induction ys arbitrary: a)
      case Nil
      show ?case by simp
    next
      case (Cons y ys)
      have "fold (\<lambda>k a. op a (F k)) (y # ys) (op a d) = fold (\<lambda>k a. op a (F k)) ys (op (op a d) (F y))"
        by simp
      also have "op (op a d) (F y) = op (op a (F y)) d" by (rule rc)
      also have "fold (\<lambda>k a. op a (F k)) ys (op (op a (F y)) d) = op (fold (\<lambda>k a. op a (F k)) ys (op a (F y))) d"
        by (rule Cons.IH)
      finally show ?case by simp
    qed
  qed
  show ?case
  proof (cases "k = k0")
    case True
    then have "k0 \<notin> set ks" using Cons.prems by simp
    then have "\<And>a. fold (\<lambda>k a. op a (G k)) ks a = fold (\<lambda>k a. op a (F k)) ks a"
    proof -
      fix a
      have "\<And>x. x \<in> set ks \<Longrightarrow> G x = F x"
        using Cons.prems(3) \<open>k0 \<notin> set ks\<close> by (metis list.set_intros(2))
      then show "fold (\<lambda>k a. op a (G k)) ks a = fold (\<lambda>k a. op a (F k)) ks a"
        by (intro fold_cong) simp_all
    qed
    with True show ?thesis by (simp add: diff mv)
  next
    case False
    with Cons show ?thesis by simp
  qed
qed

lemma fold_same:
  assumes "\<And>k. k \<in> set ks \<Longrightarrow> G k = F k"
  shows "fold (\<lambda>k a. op a (G k)) ks acc = fold (\<lambda>k a. op a (F k)) ks acc"
  using assms by (intro fold_cong) simp_all

lemma fold_pair_split:
  "fold (\<lambda>k (p, e). (fp k p, fe k e)) ks (p0, e0) = (fold fp ks p0, fold fe ks e0)"
  by (induction ks arbitrary: p0 e0) simp_all

lemma all_pieces_distinct: "distinct all_pieces" "distinct all_turn_pieces"
  by (simp_all add: all_pieces_def all_turn_pieces_def piece_types_def)

lemma all_pieces_mem:
  "(pt, t) \<in> set all_pieces \<longleftrightarrow> pt \<noteq> PIECE_NONE"
  "(t, pt) \<in> set all_turn_pieces \<longleftrightarrow> pt \<noteq> PIECE_NONE"
  by (cases pt; cases t; simp add: all_pieces_def all_turn_pieces_def piece_types_def)+

lemma xor_rc: "((a::'a::len word) XOR x) XOR y = (a XOR y) XOR x"
  by (simp add: ac_simps)

lemma fold_xor_acc:
  "fold (\<lambda>k h. h XOR F k) ks (a :: Hash) = a XOR fold (\<lambda>k h. h XOR F k) ks 0"
proof (induction ks arbitrary: a)
  case Nil
  show ?case by simp
next
  case (Cons k ks)
  have "fold (\<lambda>k h. h XOR F k) (k # ks) a = fold (\<lambda>k h. h XOR F k) ks (a XOR F k)" by simp
  also have "\<dots> = (a XOR F k) XOR fold (\<lambda>k h. h XOR F k) ks 0" by (rule Cons.IH)
  also have "\<dots> = a XOR (F k XOR fold (\<lambda>k h. h XOR F k) ks 0)" by (simp only: xor.assoc)
  also have "F k XOR fold (\<lambda>k h. h XOR F k) ks 0 = fold (\<lambda>k h. h XOR F k) ks (F k)"
    by (rule Cons.IH[symmetric])
  also have "fold (\<lambda>k h. h XOR F k) ks (F k) = fold (\<lambda>k h. h XOR F k) (k # ks) 0" by simp
  finally show ?case .
qed

lemma bb_fold_xor_acc:
  "bb_fold (\<lambda>sq h. h XOR f sq) bb (acc :: Hash) = acc XOR bb_fold (\<lambda>sq h. h XOR f sq) bb 0"
  unfolding bb_fold_squares by (rule fold_xor_acc)

section \<open>The parts of the hash, the score and the phase\<close>

lemma piece_fold_eq:
  "fold (\<lambda>turn. fold (\<lambda>piece.
            bb_fold (\<lambda>sq h. h XOR zobrist_piece_turn_square E piece turn sq)
              (m_pieces b piece turn)) piece_types) [WHITE, BLACK] 0 = piece_hash E b"
proof -
  have step: "(\<lambda>(turn, piece). bb_fold (\<lambda>sq h. h XOR zobrist_piece_turn_square E piece turn sq)
                  (m_pieces b piece turn))
            = (\<lambda>(turn, piece) h. h XOR bb_fold (\<lambda>sq h. h XOR zobrist_piece_turn_square E piece turn sq)
                  (m_pieces b piece turn) 0)"
    by (intro ext) (simp add: split_def bb_fold_xor_acc[symmetric])
  show ?thesis
    unfolding piece_hash_def all_turn_pieces_def fold_product step ..
qed

lemma castle_fold_eq:
  "fold (\<lambda>side. fold (\<lambda>turn h.
                   if m_castling_rights b side turn
                   then h XOR zobrist_castle_side_turn E side turn else h) [WHITE, BLACK])
                   [KINGSIDE, QUEENSIDE] (h :: Hash) = h XOR castle_hash E b"
proof -
  let ?F = "\<lambda>(side, turn). if m_castling_rights b side turn then zobrist_castle_side_turn E side turn else 0"
  have s1: "(\<lambda>(side, turn) h. if m_castling_rights b side turn
                             then h XOR zobrist_castle_side_turn E side turn else h)
          = (\<lambda>k h. h XOR ?F k)"
    by (intro ext) (simp add: split_def)
  show ?thesis
    unfolding castle_hash_def fold_product s1 by (rule fold_xor_acc)
qed

lemma generate_hash_parts:
  "generate_hash E b = piece_hash E b XOR state_hash E b XOR castle_hash E b"
  unfolding generate_hash_def Let_def piece_fold_eq castle_fold_eq state_hash_def
  by (simp add: xor.assoc)

lemma ms_add_assoc: "ms_add (ms_add a b) c = ms_add a (ms_add b c)"
  by (simp add: ms_add_def)

lemma ms_add_rc: "ms_add (ms_add a x) y = ms_add (ms_add a y) x"
  by (simp add: ms_add_def)

lemma ms_add_zero: "ms_add (0, 0) a = a" "ms_add a (0, 0) = a"
  by (simp_all add: ms_add_def)

lemma fold_ms_add_acc:
  "fold (\<lambda>k e. ms_add e (F k)) ks a = ms_add a (fold (\<lambda>k e. ms_add e (F k)) ks (0, 0))"
proof (induction ks arbitrary: a)
  case Nil
  show ?case by (simp add: ms_add_zero)
next
  case (Cons k ks)
  have "fold (\<lambda>k e. ms_add e (F k)) (k # ks) a = fold (\<lambda>k e. ms_add e (F k)) ks (ms_add a (F k))" by simp
  also have "\<dots> = ms_add (ms_add a (F k)) (fold (\<lambda>k e. ms_add e (F k)) ks (0, 0))" by (rule Cons.IH)
  also have "\<dots> = ms_add a (ms_add (F k) (fold (\<lambda>k e. ms_add e (F k)) ks (0, 0)))" by (rule ms_add_assoc)
  also have "ms_add (F k) (fold (\<lambda>k e. ms_add e (F k)) ks (0, 0)) = fold (\<lambda>k e. ms_add e (F k)) ks (F k)"
    by (rule Cons.IH[symmetric])
  also have "fold (\<lambda>k e. ms_add e (F k)) ks (F k) = fold (\<lambda>k e. ms_add e (F k)) (k # ks) (0, 0)"
    by (simp add: ms_add_zero)
  finally show ?case .
qed

lemma bb_fold_ms_add_acc:
  "bb_fold (\<lambda>sq ev. ms_add ev (g sq)) bb a = ms_add a (bb_fold (\<lambda>sq ev. ms_add ev (g sq)) bb (0, 0))"
  unfolding bb_fold_squares by (rule fold_ms_add_acc)

lemma material_phase_parts:
  "material_phase E b =
     (fold (\<lambda>k p. p - phase_comp E b k) all_pieces (word_of_int (Phases_Total E)),
      fold (\<lambda>k e. ms_add e (eval_comp E b k)) all_pieces (0, 0))"
proof -
  have step: "(\<lambda>(piece, turn) (phase, eval).
        let bb = m_pieces b piece turn;
            eval = ms_add eval (ms_mul (ms_mul (piece_value E piece) (bb_count bb)) (turn_to_color turn));
            phase = phase - word_of_int (bb_count bb * Phases_Pieces E piece);
            eval = bb_fold (\<lambda>sq ev. ms_add ev (ms_mul (piece_square E piece sq turn) (turn_to_color turn)))
                     bb eval
        in (phase, eval))
     = (\<lambda>k (p, e). (p - phase_comp E b k, ms_add e (eval_comp E b k)))"
    apply (intro ext)
    apply (simp add: split_def Let_def phase_comp_def eval_comp_def)
    apply (subst bb_fold_ms_add_acc)
    apply (simp add: ms_add_assoc)
    done
  show ?thesis
    apply (unfold material_phase_def fold_product all_pieces_def[symmetric])
    apply (unfold step)
    apply (unfold fold_pair_split)
    apply (rule refl)
    done
qed

lemma fold_count: "fold (\<lambda>i a. a + 1) (xs :: nat list) (a :: int) = a + int (length xs)"
  by (induction xs arbitrary: a) simp_all

lemma bb_count_fold: "bb_count bb = bb_fold (\<lambda>s a. a + 1) bb 0"
  by (simp add: bb_count_def bb_fold_squares fold_count)

lemma bb_count_set: "0 \<le> sq \<Longrightarrow> sq < 64 \<Longrightarrow> \<not> bb_test bb sq \<Longrightarrow> bb_count (bb_set bb sq) = bb_count bb + 1"
  unfolding bb_count_fold
  by (rule bb_fold_set[where op = "\<lambda>a x. a + x" and g = "\<lambda>_. 1"]) simp_all

lemma bb_count_reset: "0 \<le> sq \<Longrightarrow> sq < 64 \<Longrightarrow> bb_test bb sq \<Longrightarrow> bb_count (bb_reset bb sq) = bb_count bb - 1"
  unfolding bb_count_fold
  using bb_fold_reset[where op = "\<lambda>a x. a + x" and g = "\<lambda>_. 1" and bb = bb and sq = sq and acc = "0::int"]
  by simp

lemma bb_xor_set:
  "0 \<le> sq \<Longrightarrow> sq < 64 \<Longrightarrow> \<not> bb_test bb sq \<Longrightarrow>
     bb_fold (\<lambda>s h. h XOR f s) (bb_set bb sq) (0 :: Hash) = bb_fold (\<lambda>s h. h XOR f s) bb 0 XOR f sq"
  by (rule bb_fold_set[where op = "\<lambda>a x. a XOR x"]) (simp_all add: ac_simps)

lemma bb_xor_reset:
  "0 \<le> sq \<Longrightarrow> sq < 64 \<Longrightarrow> bb_test bb sq \<Longrightarrow>
     bb_fold (\<lambda>s h. h XOR f s) (bb_reset bb sq) (0 :: Hash) = bb_fold (\<lambda>s h. h XOR f s) bb 0 XOR f sq"
proof -
  assume a: "0 \<le> sq" "sq < 64" "bb_test bb sq"
  have "bb_fold (\<lambda>s h. h XOR f s) (bb_reset bb sq) (0 :: Hash) XOR f sq = bb_fold (\<lambda>s h. h XOR f s) bb 0"
    by (rule bb_fold_reset[where op = "\<lambda>a x. a XOR x"]) (simp_all add: ac_simps a)
  moreover have "bb_fold (\<lambda>s h. h XOR f s) (bb_reset bb sq) (0 :: Hash)
      = (bb_fold (\<lambda>s h. h XOR f s) (bb_reset bb sq) (0 :: Hash) XOR f sq) XOR f sq"
    by (simp add: xor.assoc)
  ultimately show ?thesis by simp
qed

lemma bb_ms_set:
  "0 \<le> sq \<Longrightarrow> sq < 64 \<Longrightarrow> \<not> bb_test bb sq \<Longrightarrow>
     bb_fold (\<lambda>s e. ms_add e (g s)) (bb_set bb sq) (0, 0)
       = ms_add (bb_fold (\<lambda>s e. ms_add e (g s)) bb (0, 0)) (g sq)"
  by (rule bb_fold_set[where op = ms_add]) (simp_all add: ms_add_rc)

lemma bb_ms_reset:
  "0 \<le> sq \<Longrightarrow> sq < 64 \<Longrightarrow> bb_test bb sq \<Longrightarrow>
     bb_fold (\<lambda>s e. ms_add e (g s)) (bb_reset bb sq) (0, 0)
       = ms_add (bb_fold (\<lambda>s e. ms_add e (g s)) bb (0, 0)) (ms_mul (g sq) (- 1))"
proof -
  assume a: "0 \<le> sq" "sq < 64" "bb_test bb sq"
  have "ms_add (bb_fold (\<lambda>s e. ms_add e (g s)) (bb_reset bb sq) (0, 0)) (g sq)
      = bb_fold (\<lambda>s e. ms_add e (g s)) bb (0, 0)"
    by (rule bb_fold_reset[where op = ms_add]) (simp_all add: ms_add_rc a)
  then show ?thesis
    by (cases "bb_fold (\<lambda>s e. ms_add e (g s)) (bb_reset bb sq) (0, 0)";
        cases "bb_fold (\<lambda>s e. ms_add e (g s)) bb (0, 0)"; cases "g sq")
       (auto simp: ms_add_def ms_mul_def)
qed

section \<open>The piece primitives keep the invariants\<close>

lemma squares_set: "sq \<in> set (map int [0..<64]) \<longleftrightarrow> 0 \<le> sq \<and> sq < 64"
proof -
  have "set (map int [0..<64]) = {0..<64}"
    using image_int_atLeastLessThan[of 0 64] by simp
  then show ?thesis by auto
qed

lemma mailbox_agrees_iff:
  "mailbox_agrees b \<longleftrightarrow>
     (\<forall>sq. 0 \<le> sq \<and> sq < 64 \<longrightarrow>
        (\<forall>t. m_board_pieces b sq \<noteq> Pc PIECE_NONE t)
        \<and> (\<forall>pt t. pt \<noteq> PIECE_NONE \<longrightarrow> bb_test (m_pieces b pt t) sq = (m_board_pieces b sq = Pc pt t)))"
proof -
  have t: "\<And>P. (P WHITE \<and> P BLACK) \<longleftrightarrow> (\<forall>t. P t)"
    by (metis Turn.exhaust)
  have p: "\<And>P. (\<forall>k \<in> set all_pieces. P k) \<longleftrightarrow> (\<forall>pt t. pt \<noteq> PIECE_NONE \<longrightarrow> P (pt, t))"
    using all_pieces_mem(1) by auto
  show ?thesis
    unfolding mailbox_agrees_def list_all_iff squares_set Ball_def[of "set (map int [0..<64])"]
      t[of "\<lambda>t. m_board_pieces b _ \<noteq> Pc PIECE_NONE t"] conj_assoc[symmetric] p
    by simp
qed

lemma agrees_test:
  "mailbox_agrees b \<Longrightarrow> 0 \<le> sq \<Longrightarrow> sq < 64 \<Longrightarrow> pt \<noteq> PIECE_NONE \<Longrightarrow>
     bb_test (m_pieces b pt t) sq = (m_board_pieces b sq = Pc pt t)"
  by (simp add: mailbox_agrees_iff)

lemma agrees_valid:
  "mailbox_agrees b \<Longrightarrow> 0 \<le> sq \<Longrightarrow> sq < 64 \<Longrightarrow> m_board_pieces b sq \<noteq> Pc PIECE_NONE t"
  by (simp add: mailbox_agrees_iff)

text \<open>Fields after the primitives.\<close>

lemma set_piece_fields:
  "m_pieces (set_piece E pt t sq b) pt' t' =
     (if pt' = pt \<and> t' = t then bb_set (m_pieces b pt t) sq else m_pieces b pt' t')"
  "m_board_pieces (set_piece E pt t sq b) = (m_board_pieces b)(sq := Pc pt t)"
  "m_hash (set_piece E pt t sq b) = m_hash b XOR zobrist_piece_turn_square E pt t sq"
  "m_psq (set_piece E pt t sq b) = ms_add (m_psq b) (piece_term E pt sq t)"
  "m_phase (set_piece E pt t sq b) = m_phase b - word_of_int (Phases_Pieces E pt)"
  "m_turn (set_piece E pt t sq b) = m_turn b"
  "m_castling_rights (set_piece E pt t sq b) = m_castling_rights b"
  "m_enpassant_square (set_piece E pt t sq b) = m_enpassant_square b"
  "m_half_move_clock (set_piece E pt t sq b) = m_half_move_clock b"
  "m_full_move_clock (set_piece E pt t sq b) = m_full_move_clock b"
  "m_checkers (set_piece E pt t sq b) = m_checkers b"
  by (simp_all add: set_piece_def)

lemma pop_piece_fields:
  "m_pieces (pop_piece E pt t sq b) pt' t' =
     (if pt' = pt \<and> t' = t then bb_reset (m_pieces b pt t) sq else m_pieces b pt' t')"
  "m_board_pieces (pop_piece E pt t sq b) = (m_board_pieces b)(sq := NO_PIECE)"
  "m_hash (pop_piece E pt t sq b) = m_hash b XOR zobrist_piece_turn_square E pt t sq"
  "m_psq (pop_piece E pt t sq b) = ms_add (m_psq b) (ms_mul (piece_term E pt sq t) (- 1))"
  "m_phase (pop_piece E pt t sq b) = m_phase b + word_of_int (Phases_Pieces E pt)"
  "m_turn (pop_piece E pt t sq b) = m_turn b"
  "m_castling_rights (pop_piece E pt t sq b) = m_castling_rights b"
  "m_enpassant_square (pop_piece E pt t sq b) = m_enpassant_square b"
  "m_half_move_clock (pop_piece E pt t sq b) = m_half_move_clock b"
  "m_full_move_clock (pop_piece E pt t sq b) = m_full_move_clock b"
  "m_checkers (pop_piece E pt t sq b) = m_checkers b"
  by (simp_all add: pop_piece_def)

lemma move_piece_fields:
  "m_pieces (move_piece E pt t sf st b) pt' t' =
     (if pt' = pt \<and> t' = t then bb_set (bb_reset (m_pieces b pt t) sf) st else m_pieces b pt' t')"
  "m_board_pieces (move_piece E pt t sf st b) = (m_board_pieces b)(sf := NO_PIECE, st := Pc pt t)"
  "m_hash (move_piece E pt t sf st b) = m_hash b XOR zobrist_piece_turn_square E pt t sf
                          XOR zobrist_piece_turn_square E pt t st"
  "m_psq (move_piece E pt t sf st b) = ms_add (ms_add (m_psq b) (ms_mul (piece_term E pt sf t) (- 1)))
                  (piece_term E pt st t)"
  "m_phase (move_piece E pt t sf st b) = m_phase b"
  "m_turn (move_piece E pt t sf st b) = m_turn b"
  "m_castling_rights (move_piece E pt t sf st b) = m_castling_rights b"
  "m_enpassant_square (move_piece E pt t sf st b) = m_enpassant_square b"
  "m_half_move_clock (move_piece E pt t sf st b) = m_half_move_clock b"
  "m_full_move_clock (move_piece E pt t sf st b) = m_full_move_clock b"
  "m_checkers (move_piece E pt t sf st b) = m_checkers b"
  by (simp_all add: move_piece_def)

text \<open>The hash, phase and score parts after the change of one bitboard.\<close>

lemma piece_hash_update:
  assumes "pt \<noteq> PIECE_NONE"
    and "\<And>pt' t'. pt' \<noteq> pt \<or> t' \<noteq> t \<Longrightarrow> m_pieces b' pt' t' = m_pieces b pt' t'"
    and "bb_fold (\<lambda>sq h. h XOR zobrist_piece_turn_square E pt t sq) (m_pieces b' pt t) 0
        = bb_fold (\<lambda>sq h. h XOR zobrist_piece_turn_square E pt t sq) (m_pieces b pt t) 0 XOR d"
  shows "piece_hash E b' = piece_hash E b XOR d"
proof -
  let ?F = "\<lambda>b (turn, piece). bb_fold (\<lambda>sq h. h XOR zobrist_piece_turn_square E piece turn sq)
                                     (m_pieces b piece turn) (0 :: Hash)"
  have e: "\<And>b. piece_hash E b = fold (\<lambda>k h. h XOR ?F b k) all_turn_pieces 0"
    unfolding piece_hash_def by (rule arg_cong[where f = "\<lambda>f. fold f all_turn_pieces 0"]) (auto simp: fun_eq_iff)
  show ?thesis
    unfolding e
  proof (rule fold_point_update[where ?k0.0 = "(t, pt)"])
    show "\<And>a x y. (a XOR x) XOR y = (a XOR y) XOR (x :: Hash)" by (simp add: ac_simps)
    show "distinct all_turn_pieces" by (rule all_pieces_distinct)
    show "(t, pt) \<in> set all_turn_pieces" using assms(1) by (simp add: all_pieces_mem)
    show "\<And>k. k \<in> set all_turn_pieces \<Longrightarrow> k \<noteq> (t, pt) \<Longrightarrow> ?F b' k = ?F b k"
    proof -
      fix k :: "Turn \<times> PieceType" assume "k \<noteq> (t, pt)"
      then have "snd k \<noteq> pt \<or> fst k \<noteq> t" by (cases k) auto
      from assms(2)[OF this] show "?F b' k = ?F b k" by (simp add: split_def)
    qed
    show "\<And>a. a XOR ?F b' (t, pt) = (a XOR ?F b (t, pt)) XOR d"
      using assms(3) by (simp add: ac_simps)
  qed
qed

lemma phase_update:
  assumes "pt \<noteq> PIECE_NONE"
    and "\<And>pt' t'. pt' \<noteq> pt \<or> t' \<noteq> t \<Longrightarrow> m_pieces b' pt' t' = m_pieces b pt' t'"
    and "phase_comp E b' (pt, t) = phase_comp E b (pt, t) + d"
  shows "fst (material_phase E b') = fst (material_phase E b) - d"
  unfolding material_phase_parts fst_conv
proof (rule fold_point_update[where ?k0.0 = "(pt, t)"])
  show "\<And>a x y. (a - x) - y = (a - y) - (x :: 8 word)" by simp
  show "distinct all_pieces" by (rule all_pieces_distinct)
  show "(pt, t) \<in> set all_pieces" using assms(1) by (simp add: all_pieces_mem)
  show "\<And>k. k \<in> set all_pieces \<Longrightarrow> k \<noteq> (pt, t) \<Longrightarrow> phase_comp E b' k = phase_comp E b k"
  proof -
    fix k :: "PieceType \<times> Turn" assume "k \<noteq> (pt, t)"
    then have "fst k \<noteq> pt \<or> snd k \<noteq> t" by (cases k) auto
    from assms(2)[OF this] show "phase_comp E b' k = phase_comp E b k"
      by (simp add: phase_comp_def split_def)
  qed
  show "\<And>a. a - phase_comp E b' (pt, t) = (a - phase_comp E b (pt, t)) - d"
    using assms(3) by simp
qed

lemma eval_update:
  assumes "pt \<noteq> PIECE_NONE"
    and "\<And>pt' t'. pt' \<noteq> pt \<or> t' \<noteq> t \<Longrightarrow> m_pieces b' pt' t' = m_pieces b pt' t'"
    and "eval_comp E b' (pt, t) = ms_add (eval_comp E b (pt, t)) d"
  shows "snd (material_phase E b') = ms_add (snd (material_phase E b)) d"
  unfolding material_phase_parts snd_conv
proof (rule fold_point_update[where ?k0.0 = "(pt, t)"])
  show "\<And>a x y. ms_add (ms_add a x) y = ms_add (ms_add a y) x" by (rule ms_add_rc)
  show "distinct all_pieces" by (rule all_pieces_distinct)
  show "(pt, t) \<in> set all_pieces" using assms(1) by (simp add: all_pieces_mem)
  show "\<And>k. k \<in> set all_pieces \<Longrightarrow> k \<noteq> (pt, t) \<Longrightarrow> eval_comp E b' k = eval_comp E b k"
  proof -
    fix k :: "PieceType \<times> Turn" assume "k \<noteq> (pt, t)"
    then have "fst k \<noteq> pt \<or> snd k \<noteq> t" by (cases k) auto
    from assms(2)[OF this] show "eval_comp E b' k = eval_comp E b k"
      by (simp add: eval_comp_def split_def)
  qed
  show "\<And>a. ms_add a (eval_comp E b' (pt, t)) = ms_add (ms_add a (eval_comp E b (pt, t))) d"
    using assms(3) by (simp add: ms_add_assoc)
qed

lemma xor_cancel3: "((a :: Hash) XOR z) XOR (p XOR z) XOR c = a XOR p XOR c"
  by (rule bit_eqI) (auto simp: bit_xor_iff)

lemma xor_cancel4: "((a :: Hash) XOR y XOR z) XOR (p XOR y XOR z) XOR c = a XOR p XOR c"
  by (rule bit_eqI) (auto simp: bit_xor_iff)

lemma piece_hash_cong: "m_pieces b' = m_pieces b \<Longrightarrow> piece_hash E b' = piece_hash E b"
  by (simp add: piece_hash_def)

lemma castle_hash_cong: "m_castling_rights b' = m_castling_rights b \<Longrightarrow> castle_hash E b' = castle_hash E b"
  by (simp add: castle_hash_def)

lemma material_phase_cong: "m_pieces b' = m_pieces b \<Longrightarrow> material_phase E b' = material_phase E b"
  by (simp add: material_phase_def)

lemma piece_inv_cong:
  "m_pieces b' = m_pieces b \<Longrightarrow> m_board_pieces b' = m_board_pieces b \<Longrightarrow> m_psq b' = m_psq b \<Longrightarrow>
   m_phase b' = m_phase b \<Longrightarrow> piece_inv E b' = piece_inv E b"
  by (simp add: piece_inv_def psq_ok_def mailbox_agrees_def material_phase_def)

lemma hash_core_cong:
  "m_pieces b' = m_pieces b \<Longrightarrow> m_castling_rights b' = m_castling_rights b \<Longrightarrow> m_hash b' = m_hash b \<Longrightarrow>
   hash_core E b' = hash_core E b"
  by (simp add: hash_core_def piece_hash_def castle_hash_def)

lemma set_piece_inv:
  assumes inv: "piece_inv E b" and r: "0 \<le> sq" "sq < 64" and pt: "pt \<noteq> PIECE_NONE"
    and empty: "m_board_pieces b sq = NO_PIECE"
  shows "piece_inv E (set_piece E pt t sq b)"
    and "hash_core E (set_piece E pt t sq b) = hash_core E b"
proof -
  let ?b' = "set_piece E pt t sq b"
  have ag: "mailbox_agrees b" and ps: "psq_ok E b" using inv by (simp_all add: piece_inv_def)
  have f: "fst (material_phase E b) = m_phase b" "snd (material_phase E b) = m_psq b"
    using ps by (simp_all add: psq_ok_def)
  have nt: "\<not> bb_test (m_pieces b pt t) sq"
    using agrees_test[OF ag r pt, of t] empty by simp
  have other: "\<And>pt' t'. pt' \<noteq> pt \<or> t' \<noteq> t \<Longrightarrow> m_pieces ?b' pt' t' = m_pieces b pt' t'"
    by (auto simp: set_piece_fields)
  have this_bb: "m_pieces ?b' pt t = bb_set (m_pieces b pt t) sq"
    by (simp add: set_piece_fields)
  have ag': "mailbox_agrees ?b'"
    unfolding mailbox_agrees_iff
  proof (intro allI impI conjI)
    fix s :: int and t' assume "0 \<le> s \<and> s < 64"
    then show "m_board_pieces ?b' s \<noteq> Pc PIECE_NONE t'"
      using agrees_valid[OF ag, of s t'] pt by (simp add: set_piece_fields)
  next
    fix s :: int and pt' t' assume s: "0 \<le> s \<and> s < 64" and pt': "pt' \<noteq> PIECE_NONE"
    show "bb_test (m_pieces ?b' pt' t') s = (m_board_pieces ?b' s = Pc pt' t')"
      using agrees_test[OF ag _ _ pt', of s t'] s r empty
      by (auto simp: set_piece_fields bb_test_set)
  qed
  have ph: "phase_comp E ?b' (pt, t) = phase_comp E b (pt, t) + word_of_int (Phases_Pieces E pt)"
    by (simp add: phase_comp_def this_bb bb_count_set[OF r nt] algebra_simps)
  have ev: "eval_comp E ?b' (pt, t) = ms_add (eval_comp E b (pt, t)) (piece_term E pt sq t)"
    unfolding eval_comp_def prod.case this_bb bb_count_set[OF r nt] bb_ms_set[OF r nt] piece_term_def
    by (simp add: ms_add_def ms_mul_def algebra_simps)
  have mp: "material_phase E ?b' = (m_phase ?b', m_psq ?b')"
    using phase_update[OF pt other ph, unfolded f] eval_update[OF pt other ev, unfolded f]
    by (simp add: set_piece_fields prod_eq_iff)
  show "piece_inv E ?b'" using ag' mp by (simp add: piece_inv_def psq_ok_def)
  have "piece_hash E ?b' = piece_hash E b XOR zobrist_piece_turn_square E pt t sq"
    by (rule piece_hash_update[OF pt other], assumption, subst this_bb, rule bb_xor_set[OF r nt])
  moreover have "castle_hash E ?b' = castle_hash E b"
    by (rule castle_hash_cong) (simp add: set_piece_fields)
  ultimately show "hash_core E ?b' = hash_core E b"
    by (simp add: hash_core_def set_piece_fields xor_cancel3)
qed

lemma pop_piece_inv:
  assumes inv: "piece_inv E b" and r: "0 \<le> sq" "sq < 64"
    and full: "m_board_pieces b sq = Pc pt t"
  shows "piece_inv E (pop_piece E pt t sq b)"
    and "hash_core E (pop_piece E pt t sq b) = hash_core E b"
proof -
  let ?b' = "pop_piece E pt t sq b"
  have ag: "mailbox_agrees b" and ps: "psq_ok E b" using inv by (simp_all add: piece_inv_def)
  have f: "fst (material_phase E b) = m_phase b" "snd (material_phase E b) = m_psq b"
    using ps by (simp_all add: psq_ok_def)
  have pt: "pt \<noteq> PIECE_NONE" using agrees_valid[OF ag r, of t] full by auto
  have nt: "bb_test (m_pieces b pt t) sq"
    using agrees_test[OF ag r pt, of t] full by simp
  have other: "\<And>pt' t'. pt' \<noteq> pt \<or> t' \<noteq> t \<Longrightarrow> m_pieces ?b' pt' t' = m_pieces b pt' t'"
    by (auto simp: pop_piece_fields)
  have this_bb: "m_pieces ?b' pt t = bb_reset (m_pieces b pt t) sq"
    by (simp add: pop_piece_fields)
  have ag': "mailbox_agrees ?b'"
    unfolding mailbox_agrees_iff
  proof (intro allI impI conjI)
    fix s :: int and t' assume "0 \<le> s \<and> s < 64"
    then show "m_board_pieces ?b' s \<noteq> Pc PIECE_NONE t'"
      using agrees_valid[OF ag, of s t'] by (simp add: pop_piece_fields)
  next
    fix s :: int and pt' t' assume s: "0 \<le> s \<and> s < 64" and pt': "pt' \<noteq> PIECE_NONE"
    show "bb_test (m_pieces ?b' pt' t') s = (m_board_pieces ?b' s = Pc pt' t')"
      using agrees_test[OF ag _ _ pt', of s t'] s r full
      by (auto simp: pop_piece_fields bb_test_reset)
  qed
  have ph: "phase_comp E ?b' (pt, t) = phase_comp E b (pt, t) + (- word_of_int (Phases_Pieces E pt))"
    by (simp add: phase_comp_def this_bb bb_count_reset[OF r nt] algebra_simps)
  have ev: "eval_comp E ?b' (pt, t) = ms_add (eval_comp E b (pt, t)) (ms_mul (piece_term E pt sq t) (- 1))"
    unfolding eval_comp_def prod.case this_bb bb_count_reset[OF r nt] bb_ms_reset[OF r nt] piece_term_def
    by (simp add: ms_add_def ms_mul_def algebra_simps)
  have mp: "material_phase E ?b' = (m_phase ?b', m_psq ?b')"
    using phase_update[OF pt other ph, unfolded f] eval_update[OF pt other ev, unfolded f]
    by (simp add: pop_piece_fields prod_eq_iff)
  show "piece_inv E ?b'" using ag' mp by (simp add: piece_inv_def psq_ok_def)
  have "piece_hash E ?b' = piece_hash E b XOR zobrist_piece_turn_square E pt t sq"
    by (rule piece_hash_update[OF pt other], assumption, subst this_bb, rule bb_xor_reset[OF r nt])
  moreover have "castle_hash E ?b' = castle_hash E b"
    by (rule castle_hash_cong) (simp add: pop_piece_fields)
  ultimately show "hash_core E ?b' = hash_core E b"
    by (simp add: hash_core_def pop_piece_fields xor_cancel3)
qed

text \<open>\<open>move_piece\<close> has the effect of \<open>pop_piece\<close> at the origin and \<open>set_piece\<close> at the
  destination.\<close>

lemma move_piece_eq:
  "move_piece E pt t sf st b = set_piece E pt t st (pop_piece E pt t sf b)"
  by (simp add: move_piece_def set_piece_def pop_piece_def xor.assoc)

lemma move_piece_inv:
  assumes inv: "piece_inv E b" and r: "0 \<le> sf" "sf < 64" "0 \<le> st" "st < 64" and ne: "sf \<noteq> st"
    and full: "m_board_pieces b sf = Pc pt t" and empty: "m_board_pieces b st = NO_PIECE"
  shows "piece_inv E (move_piece E pt t sf st b)"
    and "hash_core E (move_piece E pt t sf st b) = hash_core E b"
proof -
  have pt: "pt \<noteq> PIECE_NONE"
    using agrees_valid[of b sf t] inv r full by (auto simp: piece_inv_def)
  note p = pop_piece_inv[OF inv r(1,2) full]
  have e: "m_board_pieces (pop_piece E pt t sf b) st = NO_PIECE"
    using empty ne by (simp add: pop_piece_fields)
  note s = set_piece_inv[OF p(1) r(3,4) pt e]
  show "piece_inv E (move_piece E pt t sf st b)" using s(1) by (simp add: move_piece_eq)
  show "hash_core E (move_piece E pt t sf st b) = hash_core E b"
    using s(2) p(2) by (simp add: move_piece_eq)
qed

subsection \<open>Castling rights\<close>

lemma set_castling_fields:
  "m_castling_rights (set_castling E v side t b) side' t' =
     (if side' = side \<and> t' = t then v else m_castling_rights b side' t')"
  "m_pieces (set_castling E v side t b) = m_pieces b"
  "m_board_pieces (set_castling E v side t b) = m_board_pieces b"
  "m_psq (set_castling E v side t b) = m_psq b"
  "m_phase (set_castling E v side t b) = m_phase b"
  "m_turn (set_castling E v side t b) = m_turn b"
  "m_enpassant_square (set_castling E v side t b) = m_enpassant_square b"
  "m_half_move_clock (set_castling E v side t b) = m_half_move_clock b"
  "m_full_move_clock (set_castling E v side t b) = m_full_move_clock b"
  "m_checkers (set_castling E v side t b) = m_checkers b"
  by (auto simp: set_castling_def)

lemma castle_hash_eq:
  "castle_hash E b = fold (\<lambda>k h. h XOR (case k of (side, turn) \<Rightarrow>
       if m_castling_rights b side turn then zobrist_castle_side_turn E side turn else 0))
       (List.product [KINGSIDE, QUEENSIDE] [WHITE, BLACK]) 0"
  unfolding castle_hash_def
  by (rule arg_cong[where f = "\<lambda>f. fold f (List.product [KINGSIDE, QUEENSIDE] [WHITE, BLACK]) 0"])
     (auto simp: fun_eq_iff)

lemma set_castling_inv:
  assumes "side \<noteq> NO_SIDE"
  shows "hash_core E (set_castling E v side t b) = hash_core E b"
    and "piece_inv E (set_castling E v side t b) = piece_inv E b"
proof -
  let ?b' = "set_castling E v side t b"
  show "piece_inv E ?b' = piece_inv E b"
    by (rule piece_inv_cong) (simp_all add: set_castling_fields)
  show "hash_core E ?b' = hash_core E b"
  proof (cases "m_castling_rights b side t = v")
    case True
    then show ?thesis by (simp add: set_castling_def)
  next
    case False
    let ?F = "\<lambda>b k. case k of (side, turn) \<Rightarrow>
       if m_castling_rights b side turn then zobrist_castle_side_turn E side turn else (0 :: Hash)"
    have "castle_hash E ?b' = castle_hash E b XOR zobrist_castle_side_turn E side t"
      unfolding castle_hash_eq
    proof (rule fold_point_update[where ?k0.0 = "(side, t)"])
      show "\<And>a x y. (a XOR x) XOR y = (a XOR y) XOR (x :: Hash)" by (simp add: ac_simps)
      show "distinct (List.product [KINGSIDE, QUEENSIDE] [WHITE, BLACK])" by simp
      show "(side, t) \<in> set (List.product [KINGSIDE, QUEENSIDE] [WHITE, BLACK])"
        using assms by (cases side; cases t) simp_all
      show "\<And>k. k \<in> set (List.product [KINGSIDE, QUEENSIDE] [WHITE, BLACK]) \<Longrightarrow> k \<noteq> (side, t)
              \<Longrightarrow> ?F ?b' k = ?F b k"
      proof -
        fix k :: "CastleSide \<times> Turn" assume "k \<noteq> (side, t)"
        then have "\<not> (fst k = side \<and> snd k = t)" by (cases k) auto
        then show "?F ?b' k = ?F b k" by (auto simp: split_def set_castling_fields)
      qed
      show "\<And>a. a XOR ?F ?b' (side, t) = (a XOR ?F b (side, t)) XOR zobrist_castle_side_turn E side t"
        using False by (auto simp: set_castling_fields xor.assoc)
    qed
    moreover have "piece_hash E ?b' = piece_hash E b"
      by (rule piece_hash_cong) (simp add: set_castling_fields)
    moreover have "m_hash ?b' = m_hash b XOR zobrist_castle_side_turn E side t"
      using False by (simp add: set_castling_def)
    ultimately show ?thesis
      unfolding hash_core_def by (rule_tac bit_eqI) (auto simp: bit_xor_iff)
  qed
qed

section \<open>What a legal move guarantees\<close>

lemma castle_ok_iff:
  "castle_ok b \<longleftrightarrow>
     (\<forall>t. (m_castling_rights b KINGSIDE t \<longrightarrow> m_board_pieces b (king_home t + 3) = Pc ROOK t)
      \<and> (m_castling_rights b QUEENSIDE t \<longrightarrow> m_board_pieces b (king_home t - 4) = Pc ROOK t))"
proof -
  have "set [WHITE, BLACK] = UNIV"
    using Turn.exhaust by auto
  then show ?thesis unfolding castle_ok_def list_all_iff by auto
qed

lemma piece_cases: "pt \<noteq> PIECE_NONE \<longleftrightarrow> pt \<in> {PAWN, KNIGHT, BISHOP, ROOK, QUEEN, KING}"
  by (cases pt) simp_all

lemma turn_occ:
  assumes "mailbox_agrees b" "0 \<le> sq" "sq < 64"
  shows "bb_test (get_pieces_turn b t) sq \<longleftrightarrow> (\<exists>pt. m_board_pieces b sq = Pc pt t)"
proof -
  have "bb_test (get_pieces_turn b t) sq \<longleftrightarrow>
      (\<exists>pt. pt \<noteq> PIECE_NONE \<and> bb_test (m_pieces b pt t) sq)"
    unfolding get_pieces_turn_def bb_test_or piece_cases by auto
  also have "\<dots> \<longleftrightarrow> (\<exists>pt. pt \<noteq> PIECE_NONE \<and> m_board_pieces b sq = Pc pt t)"
    using agrees_test[OF assms] by auto
  also have "\<dots> \<longleftrightarrow> (\<exists>pt. m_board_pieces b sq = Pc pt t)"
    using agrees_valid[OF assms, of t] by auto
  finally show ?thesis .
qed

lemma all_occ:
  assumes "mailbox_agrees b" "0 \<le> sq" "sq < 64"
  shows "bb_test (get_pieces b) sq \<longleftrightarrow> m_board_pieces b sq \<noteq> NO_PIECE"
proof -
  have "bb_test (get_pieces b) sq \<longleftrightarrow> (\<exists>pt t. m_board_pieces b sq = Pc pt t)"
    unfolding get_pieces_def bb_test_or turn_occ[OF assms] by (metis Turn.exhaust)
  also have "\<dots> \<longleftrightarrow> m_board_pieces b sq \<noteq> NO_PIECE"
    by (cases "m_board_pieces b sq") auto
  finally show ?thesis .
qed

lemma move_range: "0 \<le> move_from m" "move_from m < 64" "0 \<le> move_to m" "move_to m < 64"
  using uint_lt2p[of "from_bits m"] uint_lt2p[of "to_bits m"]
  by (simp_all add: move_from_def move_to_def)

lemma flip_neq: "flip t \<noteq> t" "t \<noteq> flip t"
  by (cases t; simp)+

lemma legalD:
  assumes "legal E b m"
  shows "move_from m \<noteq> move_to m"
    and "is_ep_capture m \<Longrightarrow> m_enpassant_square b \<noteq> SQUARE_NULL \<and> move_to m = m_enpassant_square b"
    and "move_type m \<noteq> INVALID_1" "move_type m \<noteq> INVALID_2"
    and "bb_test (get_pieces_turn b (m_turn b)) (move_from m)"
    and "\<not> bb_test (get_pieces_turn b (m_turn b)) (move_to m)"
    and "bb_test (if is_ep_capture m \<and> get_piece_at b (move_from m) = PAWN
                     \<and> m_enpassant_square b \<noteq> SQUARE_NULL
                  then bb_set (get_pieces b AND NOT (get_pieces_turn b (m_turn b))) (m_enpassant_square b)
                  else get_pieces b AND NOT (get_pieces_turn b (m_turn b))) (move_to m) = is_capture m"
    and "get_piece_at b (move_from m) \<noteq> PAWN \<Longrightarrow>
           \<not> is_double_pawn_push m \<and> \<not> is_ep_capture m \<and> \<not> is_promotion m"
    and "get_piece_at b (move_from m) \<noteq> KING \<Longrightarrow> \<not> is_castle m"
    and "legal_piece E (get_piece_at b (move_from m)) b m (get_pieces b)"
proof -
  note l = assms[unfolded legal_def Let_def]
  show "move_from m \<noteq> move_to m" using l by (auto split: if_splits)
  show "is_ep_capture m \<Longrightarrow> m_enpassant_square b \<noteq> SQUARE_NULL \<and> move_to m = m_enpassant_square b"
    using l by (auto split: if_splits)
  show "move_type m \<noteq> INVALID_1" "move_type m \<noteq> INVALID_2" using l by (auto split: if_splits)
  show "bb_test (get_pieces_turn b (m_turn b)) (move_from m)" using l by (auto split: if_splits)
  show "\<not> bb_test (get_pieces_turn b (m_turn b)) (move_to m)" using l by (auto split: if_splits)
  show "bb_test (if is_ep_capture m \<and> get_piece_at b (move_from m) = PAWN
                     \<and> m_enpassant_square b \<noteq> SQUARE_NULL
                  then bb_set (get_pieces b AND NOT (get_pieces_turn b (m_turn b))) (m_enpassant_square b)
                  else get_pieces b AND NOT (get_pieces_turn b (m_turn b))) (move_to m) = is_capture m"
    using l by (simp split: if_splits)
  show "get_piece_at b (move_from m) \<noteq> PAWN \<Longrightarrow>
           \<not> is_double_pawn_push m \<and> \<not> is_ep_capture m \<and> \<not> is_promotion m"
    using l by (simp split: if_splits)
  show "get_piece_at b (move_from m) \<noteq> KING \<Longrightarrow> \<not> is_castle m"
    using l by (simp split: if_splits)
  show "legal_piece E (get_piece_at b (move_from m)) b m (get_pieces b)"
    using l by (cases "get_piece_at b (move_from m)") (simp_all split: if_splits)
qed

lemma legal_move_facts:
  assumes ag: "mailbox_agrees b" and ep: "ep_ok b" and co: "castle_ok b" and lg: "legal E b m"
  shows "move_facts b m"
proof -
  let ?us = "m_turn b" let ?f = "move_from m" let ?t = "move_to m"
  let ?pc = "get_piece_at b ?f" let ?up = "pawn_push ?us"
  note r = move_range[of m]
  note l = legalD[OF lg]
  have our_f: "\<exists>pt. m_board_pieces b ?f = Pc pt ?us"
    using l(5) turn_occ[OF ag r(1,2)] by simp
  then have f_pc: "m_board_pieces b ?f = Pc ?pc ?us"
    by (auto simp: get_piece_at_def)
  have pc_ne: "?pc \<noteq> PIECE_NONE"
    using agrees_valid[OF ag r(1,2), of ?us] f_pc by auto
  have not_our_t: "\<And>pt. m_board_pieces b ?t \<noteq> Pc pt ?us"
    using l(6) turn_occ[OF ag r(3,4)] by simp
  have enemy_test: "bb_test (get_pieces b AND NOT (get_pieces_turn b ?us)) ?t
        \<longleftrightarrow> (\<exists>pt. m_board_pieces b ?t = Pc pt (flip ?us))"
  proof -
    have "bb_test (get_pieces b AND NOT (get_pieces_turn b ?us)) ?t
        \<longleftrightarrow> m_board_pieces b ?t \<noteq> NO_PIECE \<and> \<not> (\<exists>pt. m_board_pieces b ?t = Pc pt ?us)"
      by (simp add: bb_test_and bb_test_not[OF r(4)] all_occ[OF ag r(3,4)] turn_occ[OF ag r(3,4)])
    also have "\<dots> \<longleftrightarrow> (\<exists>pt. m_board_pieces b ?t = Pc pt (flip ?us))"
      by (cases "m_board_pieces b ?t"; cases ?us) (auto, (metis Turn.exhaust flip.simps)+)
    finally show ?thesis .
  qed
  have cap: "if is_capture m
             then (if is_ep_capture m
                   then ?pc = PAWN \<and> m_board_pieces b ?t = NO_PIECE \<and> 0 \<le> ?t - ?up \<and> ?t - ?up < 64
                        \<and> m_board_pieces b (?t - ?up) = Pc PAWN (flip ?us)
                   else m_board_pieces b ?t = Pc (get_piece_at b ?t) (flip ?us))
             else m_board_pieces b ?t = NO_PIECE"
  proof (cases "is_ep_capture m")
    case True
    then have c: "is_capture m" by (simp add: is_capture_def is_ep_capture_def)
    have pw: "?pc = PAWN" using l(8) True by blast
    have e: "m_enpassant_square b \<noteq> SQUARE_NULL" "?t = m_enpassant_square b" using l(2)[OF True] by simp_all
    from ep e have "(if ?us = WHITE then 40 \<le> ?t \<and> ?t < 48 else 16 \<le> ?t \<and> ?t < 24)
         \<and> m_board_pieces b ?t = NO_PIECE \<and> m_board_pieces b (?t - ?up) = Pc PAWN (flip ?us)"
      by (simp add: ep_ok_def)
    then show ?thesis using True c pw by (auto simp: pawn_push_def split: if_splits)
  next
    case False
    then have "bb_test (get_pieces b AND NOT (get_pieces_turn b ?us)) ?t = is_capture m"
      using l(7) by simp
    then have k: "is_capture m \<longleftrightarrow> (\<exists>pt. m_board_pieces b ?t = Pc pt (flip ?us))"
      using enemy_test by simp
    show ?thesis
    proof (cases "is_capture m")
      case True
      with k obtain pt where "m_board_pieces b ?t = Pc pt (flip ?us)" by blast
      then show ?thesis using True False by (simp add: get_piece_at_def)
    next
      case nc: False
      with k not_our_t have "m_board_pieces b ?t = NO_PIECE"
        by (cases "m_board_pieces b ?t"; cases ?us) (auto, (metis Turn.exhaust flip.simps)+)
      then show ?thesis using nc by simp
    qed
  qed
  have lp: "legal_piece E ?pc b m (get_pieces b)" by (rule l(10))
  have dpp: "is_double_pawn_push m \<longrightarrow>
               ?pc = PAWN \<and> ?t = ?f + 2 * ?up \<and> rank_of ?f = (if ?us = WHITE then 1 else 6)
               \<and> m_board_pieces b (?f + ?up) = NO_PIECE"
  proof
    assume d: "is_double_pawn_push m"
    then have pw: "?pc = PAWN" using l(8) by blast
    have nc: "\<not> is_castle m" using d by (simp add: is_castle_def is_double_pawn_push_def)
    from lp pw have "legal_pawn E b m (get_pieces b)" by (simp add: legal_piece_def)
    then have g: "rank_of ?f = (if ?us = WHITE then 1 else 6)" "?t = ?f + 2 * ?up"
        "\<not> bb_test (get_pieces b) (?f + ?up)"
      using d nc by (simp_all add: legal_pawn_def Let_def pawn_push_def)
    have rr: "0 \<le> ?f + ?up" "?f + ?up < 64"
      using g(1,2) r by (auto simp: pawn_push_def rank_of_def split: if_splits)
    from g(3) all_occ[OF ag rr] have "m_board_pieces b (?f + ?up) = NO_PIECE" by simp
    with pw g show "?pc = PAWN \<and> ?t = ?f + 2 * ?up \<and> rank_of ?f = (if ?us = WHITE then 1 else 6)
               \<and> m_board_pieces b (?f + ?up) = NO_PIECE" by simp
  qed
  have co': "\<And>t. (m_castling_rights b KINGSIDE t \<longrightarrow> m_board_pieces b (king_home t + 3) = Pc ROOK t)
      \<and> (m_castling_rights b QUEENSIDE t \<longrightarrow> m_board_pieces b (king_home t - 4) = Pc ROOK t)"
    using co unfolding castle_ok_iff by blast
  have home_r: "0 \<le> king_home ?us - 4" "king_home ?us + 3 < 64"
    by (simp_all add: king_home_def)
  have kc: "move_type m = KING_CASTLE \<longrightarrow>
               ?pc = KING \<and> ?f = king_home ?us \<and> ?t = ?f + 2 \<and> m_castling_rights b KINGSIDE ?us
               \<and> m_board_pieces b (?f + 1) = NO_PIECE \<and> m_board_pieces b (?f + 3) = Pc ROOK ?us"
  proof
    assume k: "move_type m = KING_CASTLE"
    then have "is_castle m" by (simp add: is_castle_def)
    then have kg: "?pc = KING" using l(9) by blast
    from lp kg have "legal_king E b m (get_pieces b)" by (simp add: legal_piece_def)
    then have g: "m_castling_rights b KINGSIDE ?us" "?f = king_home ?us" "?t = king_home ?us + 2"
        "\<not> bb_test (get_pieces b) (king_home ?us + 1)"
      using k by (simp_all add: legal_king_def Let_def king_home_def)
    have "m_board_pieces b (king_home ?us + 1) = NO_PIECE"
      using g(4) all_occ[OF ag, of "king_home ?us + 1"] home_r by simp
    with kg g co'[of ?us] show "?pc = KING \<and> ?f = king_home ?us \<and> ?t = ?f + 2 \<and> m_castling_rights b KINGSIDE ?us
               \<and> m_board_pieces b (?f + 1) = NO_PIECE \<and> m_board_pieces b (?f + 3) = Pc ROOK ?us"
      by simp
  qed
  have qc: "move_type m = QUEEN_CASTLE \<longrightarrow>
               ?pc = KING \<and> ?f = king_home ?us \<and> ?t = ?f - 2 \<and> m_castling_rights b QUEENSIDE ?us
               \<and> m_board_pieces b (?f - 1) = NO_PIECE \<and> m_board_pieces b (?f - 4) = Pc ROOK ?us"
  proof
    assume k: "move_type m = QUEEN_CASTLE"
    then have "is_castle m" by (simp add: is_castle_def)
    then have kg: "?pc = KING" using l(9) by blast
    from lp kg have "legal_king E b m (get_pieces b)" by (simp add: legal_piece_def)
    then have g: "m_castling_rights b QUEENSIDE ?us" "?f = king_home ?us" "?t = king_home ?us - 2"
        "\<not> bb_test (get_pieces b) (king_home ?us - 1)"
      using k by (simp_all add: legal_king_def Let_def king_home_def)
    have "m_board_pieces b (king_home ?us - 1) = NO_PIECE"
      using g(4) all_occ[OF ag, of "king_home ?us - 1"] home_r by simp
    with kg g co'[of ?us] show "?pc = KING \<and> ?f = king_home ?us \<and> ?t = ?f - 2 \<and> m_castling_rights b QUEENSIDE ?us
               \<and> m_board_pieces b (?f - 1) = NO_PIECE \<and> m_board_pieces b (?f - 4) = Pc ROOK ?us"
      by simp
  qed
  have pr: "is_promotion m \<longrightarrow> ?pc = PAWN" using l(8) by blast
  show ?thesis
    unfolding move_facts_def Let_def
    by (intro conjI l(1) pc_ne f_pc cap dpp kc qc pr l(3,4))
qed

section \<open>\<open>make_move\<close> stage by stage\<close>

lemma kind_excl:
  "is_capture m \<Longrightarrow> \<not> is_double_pawn_push m \<and> \<not> is_castle m"
  "is_double_pawn_push m \<Longrightarrow> \<not> is_castle m \<and> \<not> is_promotion m \<and> \<not> is_capture m"
  "is_castle m \<Longrightarrow> \<not> is_promotion m \<and> \<not> is_capture m \<and> \<not> is_double_pawn_push m"
  "is_ep_capture m \<Longrightarrow> is_capture m \<and> \<not> is_promotion m"
  "is_promotion m \<Longrightarrow> promo_piece m \<noteq> PIECE_NONE"
  "is_castle m \<longleftrightarrow> move_type m = KING_CASTLE \<or> move_type m = QUEEN_CASTLE"
  by (cases "move_type m";
      simp add: is_capture_def is_double_pawn_push_def is_castle_def is_promotion_def
        is_ep_capture_def promo_piece_def)+

lemma mm_clocks_fields:
  "m_pieces (mm_clocks b m r) = m_pieces r"
  "m_board_pieces (mm_clocks b m r) = m_board_pieces r"
  "m_psq (mm_clocks b m r) = m_psq r"
  "m_phase (mm_clocks b m r) = m_phase r"
  "m_hash (mm_clocks b m r) = m_hash r"
  "m_castling_rights (mm_clocks b m r) = m_castling_rights r"
  "m_turn (mm_clocks b m r) = m_turn r"
  "m_enpassant_square (mm_clocks b m r) = SQUARE_NULL"
  "m_checkers (mm_clocks b m r) = m_checkers r"
  by (simp_all add: mm_clocks_def Let_def)

lemma mm_castling_fields:
  "m_pieces (mm_castling E b m r) = m_pieces r"
  "m_board_pieces (mm_castling E b m r) = m_board_pieces r"
  "m_psq (mm_castling E b m r) = m_psq r"
  "m_phase (mm_castling E b m r) = m_phase r"
  "m_turn (mm_castling E b m r) = m_turn r"
  "m_enpassant_square (mm_castling E b m r) = m_enpassant_square r"
  "m_checkers (mm_castling E b m r) = m_checkers r"
  by (simp_all add: mm_castling_def Let_def set_castling_fields)

lemma mm_castling_hash: "hash_core E (mm_castling E b m r) = hash_core E r"
  by (simp add: mm_castling_def Let_def set_castling_inv)

lemma pre_stage:
  "piece_inv E (mm_castling E b m (mm_clocks b m r)) = piece_inv E r"
  "hash_core E (mm_castling E b m (mm_clocks b m r)) = hash_core E r"
proof -
  show "piece_inv E (mm_castling E b m (mm_clocks b m r)) = piece_inv E r"
    by (rule piece_inv_cong) (simp_all add: mm_castling_fields mm_clocks_fields)
  have "hash_core E (mm_clocks b m r) = hash_core E r"
    by (rule hash_core_cong) (simp_all add: mm_clocks_fields)
  then show "hash_core E (mm_castling E b m (mm_clocks b m r)) = hash_core E r"
    by (simp add: mm_castling_hash)
qed

lemma move_factsD:
  assumes "move_facts b m"
  shows "move_from m \<noteq> move_to m"
    and "get_piece_at b (move_from m) \<noteq> PIECE_NONE"
    and "m_board_pieces b (move_from m) = Pc (get_piece_at b (move_from m)) (m_turn b)"
    and "is_capture m \<Longrightarrow> \<not> is_ep_capture m \<Longrightarrow>
           m_board_pieces b (move_to m) = Pc (get_piece_at b (move_to m)) (flip (m_turn b))"
    and "is_ep_capture m \<Longrightarrow>
           get_piece_at b (move_from m) = PAWN \<and> m_board_pieces b (move_to m) = NO_PIECE
           \<and> 0 \<le> move_to m - pawn_push (m_turn b) \<and> move_to m - pawn_push (m_turn b) < 64
           \<and> m_board_pieces b (move_to m - pawn_push (m_turn b)) = Pc PAWN (flip (m_turn b))"
    and "\<not> is_capture m \<Longrightarrow> m_board_pieces b (move_to m) = NO_PIECE"
    and "is_double_pawn_push m \<Longrightarrow>
           get_piece_at b (move_from m) = PAWN \<and> move_to m = move_from m + 2 * pawn_push (m_turn b)
           \<and> rank_of (move_from m) = (if m_turn b = WHITE then 1 else 6)
           \<and> m_board_pieces b (move_from m + pawn_push (m_turn b)) = NO_PIECE"
    and "move_type m = KING_CASTLE \<Longrightarrow>
           get_piece_at b (move_from m) = KING \<and> move_from m = king_home (m_turn b)
           \<and> move_to m = king_home (m_turn b) + 2 \<and> m_castling_rights b KINGSIDE (m_turn b)
           \<and> m_board_pieces b (king_home (m_turn b) + 1) = NO_PIECE
           \<and> m_board_pieces b (king_home (m_turn b) + 3) = Pc ROOK (m_turn b)"
    and "move_type m = QUEEN_CASTLE \<Longrightarrow>
           get_piece_at b (move_from m) = KING \<and> move_from m = king_home (m_turn b)
           \<and> move_to m = king_home (m_turn b) - 2 \<and> m_castling_rights b QUEENSIDE (m_turn b)
           \<and> m_board_pieces b (king_home (m_turn b) - 1) = NO_PIECE
           \<and> m_board_pieces b (king_home (m_turn b) - 4) = Pc ROOK (m_turn b)"
    and "is_promotion m \<Longrightarrow> get_piece_at b (move_from m) = PAWN"
proof -
  note f = assms[unfolded move_facts_def Let_def]
  show "move_from m \<noteq> move_to m" using f by blast
  show "get_piece_at b (move_from m) \<noteq> PIECE_NONE" using f by blast
  show "m_board_pieces b (move_from m) = Pc (get_piece_at b (move_from m)) (m_turn b)" using f by blast
  have c: "if is_capture m
             then (if is_ep_capture m
                   then get_piece_at b (move_from m) = PAWN \<and> m_board_pieces b (move_to m) = NO_PIECE
                        \<and> 0 \<le> move_to m - pawn_push (m_turn b) \<and> move_to m - pawn_push (m_turn b) < 64
                        \<and> m_board_pieces b (move_to m - pawn_push (m_turn b)) = Pc PAWN (flip (m_turn b))
                   else m_board_pieces b (move_to m) = Pc (get_piece_at b (move_to m)) (flip (m_turn b)))
             else m_board_pieces b (move_to m) = NO_PIECE"
    using f by blast
  show "is_capture m \<Longrightarrow> \<not> is_ep_capture m \<Longrightarrow>
           m_board_pieces b (move_to m) = Pc (get_piece_at b (move_to m)) (flip (m_turn b))"
    using c by simp
  show "is_ep_capture m \<Longrightarrow>
           get_piece_at b (move_from m) = PAWN \<and> m_board_pieces b (move_to m) = NO_PIECE
           \<and> 0 \<le> move_to m - pawn_push (m_turn b) \<and> move_to m - pawn_push (m_turn b) < 64
           \<and> m_board_pieces b (move_to m - pawn_push (m_turn b)) = Pc PAWN (flip (m_turn b))"
    using c kind_excl(4)[of m] by simp
  show "\<not> is_capture m \<Longrightarrow> m_board_pieces b (move_to m) = NO_PIECE" using c by simp
  show "is_double_pawn_push m \<Longrightarrow>
           get_piece_at b (move_from m) = PAWN \<and> move_to m = move_from m + 2 * pawn_push (m_turn b)
           \<and> rank_of (move_from m) = (if m_turn b = WHITE then 1 else 6)
           \<and> m_board_pieces b (move_from m + pawn_push (m_turn b)) = NO_PIECE"
    using f by blast
  have k: "move_type m = KING_CASTLE \<longrightarrow>
               get_piece_at b (move_from m) = KING \<and> move_from m = king_home (m_turn b)
               \<and> move_to m = move_from m + 2 \<and> m_castling_rights b KINGSIDE (m_turn b)
               \<and> m_board_pieces b (move_from m + 1) = NO_PIECE
               \<and> m_board_pieces b (move_from m + 3) = Pc ROOK (m_turn b)"
    using f by blast
  show "move_type m = KING_CASTLE \<Longrightarrow>
           get_piece_at b (move_from m) = KING \<and> move_from m = king_home (m_turn b)
           \<and> move_to m = king_home (m_turn b) + 2 \<and> m_castling_rights b KINGSIDE (m_turn b)
           \<and> m_board_pieces b (king_home (m_turn b) + 1) = NO_PIECE
           \<and> m_board_pieces b (king_home (m_turn b) + 3) = Pc ROOK (m_turn b)"
    using k by auto
  have q: "move_type m = QUEEN_CASTLE \<longrightarrow>
               get_piece_at b (move_from m) = KING \<and> move_from m = king_home (m_turn b)
               \<and> move_to m = move_from m - 2 \<and> m_castling_rights b QUEENSIDE (m_turn b)
               \<and> m_board_pieces b (move_from m - 1) = NO_PIECE
               \<and> m_board_pieces b (move_from m - 4) = Pc ROOK (m_turn b)"
    using f by blast
  show "move_type m = QUEEN_CASTLE \<Longrightarrow>
           get_piece_at b (move_from m) = KING \<and> move_from m = king_home (m_turn b)
           \<and> move_to m = king_home (m_turn b) - 2 \<and> m_castling_rights b QUEENSIDE (m_turn b)
           \<and> m_board_pieces b (king_home (m_turn b) - 1) = NO_PIECE
           \<and> m_board_pieces b (king_home (m_turn b) - 4) = Pc ROOK (m_turn b)"
    using q by auto
  show "is_promotion m \<Longrightarrow> get_piece_at b (move_from m) = PAWN" using f by blast
qed

lemma type_action_stage:
  assumes mf: "move_facts b m" and inv: "piece_inv E r" and mb: "m_board_pieces r = m_board_pieces b"
  shows "piece_inv E (mm_type_action E b m r)"
    and "hash_core E (mm_type_action E b m r)
          = hash_core E r XOR (if is_double_pawn_push m then zobrist_ep_file E (file_of (move_to m)) else 0)"
    and "m_board_pieces (mm_type_action E b m r) (move_from m)
          = Pc (get_piece_at b (move_from m)) (m_turn b)"
    and "m_board_pieces (mm_type_action E b m r) (move_to m) = NO_PIECE"
proof -
  let ?us = "m_turn b" let ?f = "move_from m" let ?t = "move_to m"
  let ?pc = "get_piece_at b ?f" let ?up = "pawn_push ?us"
  let ?r3 = "mm_type_action E b m r"
  note rg = move_range[of m]
  note d = move_factsD[OF mf]
  have up: "(if ?us = WHITE then (8::int) else - 8) = ?up" by (simp add: pawn_push_def)
  note fpc = d(3) and ft = d(1)
  consider (cap) "is_capture m" | (dpp) "\<not> is_capture m" "is_double_pawn_push m"
    | (kc) "\<not> is_capture m" "\<not> is_double_pawn_push m" "move_type m = KING_CASTLE"
    | (qc) "\<not> is_capture m" "\<not> is_double_pawn_push m" "move_type m = QUEEN_CASTLE"
    | (other) "\<not> is_capture m" "\<not> is_double_pawn_push m" "\<not> is_castle m"
    using kind_excl(6)[of m] by blast
  then have "piece_inv E ?r3
     \<and> hash_core E ?r3 = hash_core E r XOR (if is_double_pawn_push m then zobrist_ep_file E (file_of ?t) else 0)
     \<and> m_board_pieces ?r3 ?f = Pc ?pc ?us \<and> m_board_pieces ?r3 ?t = NO_PIECE"
  proof cases
    case cap
    define target where "target = (if is_ep_capture m then ?t - ?up else ?t)"
    define p where "p = pop_piece E (get_piece_at b target) (flip ?us) target r"
    have tr: "0 \<le> target" "target < 64"
      using d(5) rg by (auto simp: target_def)
    have tm0: "m_board_pieces b target = Pc (get_piece_at b target) (flip ?us)"
    proof (cases "is_ep_capture m")
      case True
      with d(5) show ?thesis by (simp add: target_def get_piece_at_def)
    next
      case False
      with d(4)[OF cap] show ?thesis by (simp add: target_def)
    qed
    then have tm: "m_board_pieces r target = Pc (get_piece_at b target) (flip ?us)" by (simp add: mb)
    have tf: "target \<noteq> ?f" using tm0 fpc flip_neq[of ?us] by auto
    have tto: "((m_board_pieces b)(target := NO_PIECE)) ?t = NO_PIECE"
      using d(5) by (cases "is_ep_capture m") (simp_all add: target_def)
    note pp = pop_piece_inv[OF inv tr tm, folded p_def]
    have nd: "\<not> is_double_pawn_push m" using kind_excl(1)[OF cap] by simp
    have r3: "?r3 = (let r' = (if ?t = (if ?us = WHITE then SQUARE_H8 else SQUARE_H1)
                          then set_castling E False KINGSIDE (flip ?us) p else p)
            in if ?t = (if ?us = WHITE then SQUARE_A8 else SQUARE_A1)
               then set_castling E False QUEENSIDE (flip ?us) r' else r')"
      using cap unfolding mm_type_action_def Let_def up p_def target_def by simp
    have a1: "piece_inv E ?r3" unfolding r3 Let_def using pp(1) by (simp add: set_castling_inv)
    have a2: "hash_core E ?r3 = hash_core E r" unfolding r3 Let_def using pp(2) by (simp add: set_castling_inv)
    have a3: "m_board_pieces ?r3 = (m_board_pieces b)(target := NO_PIECE)"
      unfolding r3 Let_def by (simp add: set_castling_fields p_def pop_piece_fields mb)
    have a4: "m_board_pieces ?r3 ?f = Pc ?pc ?us" unfolding a3 using tf fpc by simp
    have a5: "m_board_pieces ?r3 ?t = NO_PIECE" unfolding a3 by (rule tto)
    show ?thesis using a1 a2 a4 a5 nd by simp
  next
    case dpp
    have r3: "?r3 = r \<lparr> m_enpassant_square := ?t - ?up,
                    m_hash := m_hash r XOR zobrist_ep_file E (file_of ?t) \<rparr>"
      using dpp unfolding mm_type_action_def Let_def up by simp
    have "piece_inv E ?r3 = piece_inv E r" unfolding r3 by (rule piece_inv_cong) simp_all
    then have a1: "piece_inv E ?r3" using inv by simp
    have a2: "hash_core E ?r3 = hash_core E r XOR zobrist_ep_file E (file_of ?t)"
      unfolding r3 hash_core_def piece_hash_def castle_hash_def
      by (simp add: xor.assoc xor.commute xor.left_commute)
    have a3: "m_board_pieces ?r3 = m_board_pieces b" unfolding r3 by (simp add: mb)
    show ?thesis using a1 a2 dpp(2) fpc d(6)[OF dpp(1)] unfolding a3 by simp
  next
    case kc
    have c: "is_castle m" using kc by (simp add: kind_excl(6))
    note g = d(8)[OF kc(3)]
    have ff: "?f = king_home ?us" and tt: "?t = king_home ?us + 2" using g by simp_all
    have r3: "?r3 = move_piece E ROOK ?us (king_home ?us + 3) (king_home ?us + 1) r"
      using kc(1,2) c unfolding mm_type_action_def Let_def up ff tt by (simp add: add.commute)
    have hr: "0 \<le> king_home ?us + 3" "king_home ?us + 3 < 64" "0 \<le> king_home ?us + 1"
        "king_home ?us + 1 < 64" "king_home ?us + 3 \<noteq> king_home ?us + 1"
      by (simp_all add: king_home_def)
    have m1: "m_board_pieces r (king_home ?us + 3) = Pc ROOK ?us"
      and m2: "m_board_pieces r (king_home ?us + 1) = NO_PIECE" using g by (simp_all add: mb)
    note mv = move_piece_inv[OF inv hr m1 m2]
    have a3: "m_board_pieces ?r3 = (m_board_pieces b)(king_home ?us + 3 := NO_PIECE, king_home ?us + 1 := Pc ROOK ?us)"
      unfolding r3 by (simp add: move_piece_fields mb)
    have a4: "m_board_pieces ?r3 ?f = Pc ?pc ?us" unfolding a3 using fpc by (simp add: ff)
    have a5: "m_board_pieces ?r3 ?t = NO_PIECE" unfolding a3 using d(6)[OF kc(1)] by (simp add: tt)
    show ?thesis using mv[folded r3] a4 a5 kc(2) by simp
  next
    case qc
    have c: "is_castle m" using qc by (simp add: kind_excl(6))
    note g = d(9)[OF qc(3)]
    have ff: "?f = king_home ?us" and tt: "?t = king_home ?us - 2" using g by simp_all
    have lt: "\<not> king_home ?us - 2 > king_home ?us" by simp
    have r3: "?r3 = move_piece E ROOK ?us (king_home ?us - 4) (king_home ?us - 1) r"
      using qc(1,2) c unfolding mm_type_action_def Let_def up ff tt by simp
    have hr: "0 \<le> king_home ?us - 4" "king_home ?us - 4 < 64" "0 \<le> king_home ?us - 1"
        "king_home ?us - 1 < 64" "king_home ?us - 4 \<noteq> king_home ?us - 1"
      by (simp_all add: king_home_def)
    have m1: "m_board_pieces r (king_home ?us - 4) = Pc ROOK ?us"
      and m2: "m_board_pieces r (king_home ?us - 1) = NO_PIECE" using g by (simp_all add: mb)
    note mv = move_piece_inv[OF inv hr m1 m2]
    have a3: "m_board_pieces ?r3 = (m_board_pieces b)(king_home ?us - 4 := NO_PIECE, king_home ?us - 1 := Pc ROOK ?us)"
      unfolding r3 by (simp add: move_piece_fields mb)
    have a4: "m_board_pieces ?r3 ?f = Pc ?pc ?us" unfolding a3 using fpc by (simp add: ff)
    have a5: "m_board_pieces ?r3 ?t = NO_PIECE" unfolding a3 using d(6)[OF qc(1)] by (simp add: tt)
    show ?thesis using mv[folded r3] a4 a5 qc(2) by simp
  next
    case other
    have r3: "?r3 = r" using other unfolding mm_type_action_def Let_def by simp
    show ?thesis unfolding r3 using inv other(2) fpc d(6)[OF other(1)] mb by simp
  qed
  then show "piece_inv E ?r3"
    and "hash_core E ?r3 = hash_core E r XOR (if is_double_pawn_push m then zobrist_ep_file E (file_of ?t) else 0)"
    and "m_board_pieces ?r3 ?f = Pc ?pc ?us" and "m_board_pieces ?r3 ?t = NO_PIECE"
    by simp_all
qed

lemma place_stage:
  assumes mf: "move_facts b m" and inv: "piece_inv E r"
    and mf_from: "m_board_pieces r (move_from m) = Pc (get_piece_at b (move_from m)) (m_turn b)"
    and mf_to: "m_board_pieces r (move_to m) = NO_PIECE"
  shows "piece_inv E (mm_place E b m r)"
    and "hash_core E (mm_place E b m r) = hash_core E r"
proof -
  note rg = move_range[of m]
  note ft = move_factsD(1)[OF mf]
  have "piece_inv E (mm_place E b m r) \<and> hash_core E (mm_place E b m r) = hash_core E r"
  proof (cases "is_promotion m")
    case True
    note p = pop_piece_inv[OF inv rg(1,2) mf_from]
    have e: "m_board_pieces (pop_piece E (get_piece_at b (move_from m)) (m_turn b) (move_from m) r) (move_to m)
        = NO_PIECE"
      using mf_to ft by (simp add: pop_piece_fields)
    note s = set_piece_inv[OF p(1) rg(3,4) kind_excl(5)[OF True] e, of "m_turn b"]
    show ?thesis using True s p(2) by (simp add: mm_place_def Let_def)
  next
    case False
    note mv = move_piece_inv[OF inv rg ft mf_from mf_to]
    show ?thesis using False mv by (simp add: mm_place_def Let_def)
  qed
  then show "piece_inv E (mm_place E b m r)" "hash_core E (mm_place E b m r) = hash_core E r"
    by simp_all
qed

lemma mm_type_action_fields:
  "m_turn (mm_type_action E b m r) = m_turn r"
  "m_enpassant_square (mm_type_action E b m r)
     = (if \<not> is_capture m \<and> is_double_pawn_push m then move_to m - pawn_push (m_turn b)
        else m_enpassant_square r)"
  "m_board_pieces (mm_type_action E b m r)
     = (if is_capture m
        then (m_board_pieces r)((if is_ep_capture m then move_to m - pawn_push (m_turn b) else move_to m) := NO_PIECE)
        else if is_double_pawn_push m then m_board_pieces r
        else if move_type m = KING_CASTLE \<or> move_type m = QUEEN_CASTLE
        then (m_board_pieces r)
               (move_to m + (if move_to m > move_from m then 1 else - 2) := NO_PIECE,
                move_to m + (if move_to m > move_from m then - 1 else 1) := Pc ROOK (m_turn b))
        else m_board_pieces r)"
  by (simp_all add: mm_type_action_def Let_def pawn_push_def set_castling_fields pop_piece_fields
        move_piece_fields kind_excl(6))

lemma mm_place_fields:
  "m_turn (mm_place E b m r) = m_turn r"
  "m_enpassant_square (mm_place E b m r) = m_enpassant_square r"
  "m_castling_rights (mm_place E b m r) = m_castling_rights r"
  "m_board_pieces (mm_place E b m r)
     = (m_board_pieces r)(move_from m := NO_PIECE,
          move_to m := Pc (if is_promotion m then promo_piece m else get_piece_at b (move_from m)) (m_turn b))"
  by (simp_all add: mm_place_def Let_def set_piece_fields pop_piece_fields move_piece_fields)

lemma mm_swap_turn_fields:
  "m_pieces (mm_swap_turn E b r) = m_pieces r"
  "m_board_pieces (mm_swap_turn E b r) = m_board_pieces r"
  "m_psq (mm_swap_turn E b r) = m_psq r"
  "m_phase (mm_swap_turn E b r) = m_phase r"
  "m_castling_rights (mm_swap_turn E b r) = m_castling_rights r"
  "m_enpassant_square (mm_swap_turn E b r) = m_enpassant_square r"
  "m_turn (mm_swap_turn E b r) = flip (m_turn b)"
  "m_hash (mm_swap_turn E b r)
     = m_hash r XOR zobrist_black_move E
         XOR (if m_enpassant_square b \<noteq> SQUARE_NULL
              then zobrist_ep_file E (file_of (m_enpassant_square b)) else 0)"
  by (simp_all add: mm_swap_turn_def Let_def xor.assoc)

lemma update_checkers_fields:
  "m_pieces (update_checkers E r) = m_pieces r"
  "m_board_pieces (update_checkers E r) = m_board_pieces r"
  "m_psq (update_checkers E r) = m_psq r"
  "m_phase (update_checkers E r) = m_phase r"
  "m_castling_rights (update_checkers E r) = m_castling_rights r"
  "m_enpassant_square (update_checkers E r) = m_enpassant_square r"
  "m_turn (update_checkers E r) = m_turn r"
  "m_hash (update_checkers E r) = m_hash r"
  by (simp_all add: update_checkers_def)

lemma update_checkers_ok: "checkers_ok E (update_checkers E r)"
  by (simp add: checkers_ok_def update_checkers_def attackers_def get_pieces_def get_pieces_turn_def)

lemma make_move_turn: "m_turn (make_move E b m) = flip (m_turn b)"
  by (simp add: make_move_def update_checkers_fields mm_swap_turn_fields)

lemma make_move_ep:
  "m_enpassant_square (make_move E b m)
     = (if \<not> is_capture m \<and> is_double_pawn_push m then move_to m - pawn_push (m_turn b) else SQUARE_NULL)"
  by (simp add: make_move_def update_checkers_fields mm_swap_turn_fields mm_place_fields
        mm_type_action_fields mm_castling_fields mm_clocks_fields)

lemma make_move_mailbox:
  "m_board_pieces (make_move E b m)
     = (m_board_pieces (mm_type_action E b m (mm_castling E b m (mm_clocks b m b))))
         (move_from m := NO_PIECE,
          move_to m := Pc (if is_promotion m then promo_piece m else get_piece_at b (move_from m)) (m_turn b))"
  by (simp add: make_move_def update_checkers_fields mm_swap_turn_fields mm_place_fields)

lemma make_move_core:
  assumes mf: "move_facts b m" and inv: "piece_inv E b"
  shows "piece_inv E (make_move E b m)"
    and "hash_core E (mm_place E b m (mm_type_action E b m (mm_castling E b m (mm_clocks b m b))))
          = hash_core E b XOR (if is_double_pawn_push m then zobrist_ep_file E (file_of (move_to m)) else 0)"
proof -
  let ?r2 = "mm_castling E b m (mm_clocks b m b)"
  let ?r3 = "mm_type_action E b m ?r2"
  let ?r4 = "mm_place E b m ?r3"
  have i2: "piece_inv E ?r2" using inv by (simp add: pre_stage)
  have mb: "m_board_pieces ?r2 = m_board_pieces b" by (simp add: mm_castling_fields mm_clocks_fields)
  note t = type_action_stage[OF mf i2 mb]
  note p = place_stage[OF mf t(1) t(3) t(4)]
  have "piece_inv E (make_move E b m) = piece_inv E ?r4"
    unfolding make_move_def
    by (rule piece_inv_cong) (simp_all add: update_checkers_fields mm_swap_turn_fields)
  then show "piece_inv E (make_move E b m)" using p(1) by simp
  show "hash_core E ?r4
          = hash_core E b XOR (if is_double_pawn_push m then zobrist_ep_file E (file_of (move_to m)) else 0)"
    unfolding p(2) t(2) by (simp add: pre_stage)
qed

lemma xor_solve: "(h :: Hash) XOR p XOR c = k \<Longrightarrow> h = k XOR p XOR c"
proof -
  assume a: "h XOR p XOR c = k"
  have "h = (h XOR p XOR c) XOR p XOR c"
    by (rule bit_eqI) (auto simp: bit_xor_iff)
  then show ?thesis using a by simp
qed

lemma xor_rearrange:
  "((((t :: Hash) XOR e) XOR d) XOR p XOR c) XOR k XOR e = p XOR ((t XOR k) XOR d) XOR c"
  by (rule bit_eqI) (auto simp: bit_xor_iff)

lemma hash_core_state:
  "m_hash b = generate_hash E b \<Longrightarrow> hash_core E b = state_hash E b"
  unfolding hash_core_def generate_hash_parts
  by (rule bit_eqI) (auto simp: bit_xor_iff)

lemma dpp_ep_square:
  assumes mf: "move_facts b m" and dpp: "is_double_pawn_push m"
  shows "move_to m - pawn_push (m_turn b) = move_from m + pawn_push (m_turn b)"
    and "move_to m - pawn_push (m_turn b) \<noteq> SQUARE_NULL"
    and "file_of (move_to m - pawn_push (m_turn b)) = file_of (move_to m)"
    and "if m_turn b = BLACK then 40 \<le> move_to m - pawn_push (m_turn b) \<and> move_to m - pawn_push (m_turn b) < 48
         else 16 \<le> move_to m - pawn_push (m_turn b) \<and> move_to m - pawn_push (m_turn b) < 24"
proof -
  note d = move_factsD(7)[OF mf dpp]
  have t: "move_to m = move_from m + 2 * pawn_push (m_turn b)"
    and rk: "rank_of (move_from m) = (if m_turn b = WHITE then 1 else 6)" using d by simp_all
  show "move_to m - pawn_push (m_turn b) = move_from m + pawn_push (m_turn b)"
    unfolding t by simp
  have rng: "if m_turn b = WHITE then 8 \<le> move_from m \<and> move_from m < 16
             else 48 \<le> move_from m \<and> move_from m < 56"
    using rk by (auto simp: rank_of_def split: if_splits)
  show "move_to m - pawn_push (m_turn b) \<noteq> SQUARE_NULL"
    unfolding t using rng by (auto simp: pawn_push_def SQUARE_NULL_def split: if_splits)
  show "file_of (move_to m - pawn_push (m_turn b)) = file_of (move_to m)"
    by (simp add: file_of_def pawn_push_def)
  show "if m_turn b = BLACK then 40 \<le> move_to m - pawn_push (m_turn b) \<and> move_to m - pawn_push (m_turn b) < 48
         else 16 \<le> move_to m - pawn_push (m_turn b) \<and> move_to m - pawn_push (m_turn b) < 24"
    unfolding t using rng by (cases "m_turn b") (auto simp: pawn_push_def)
qed

lemma make_move_hash:
  assumes mf: "move_facts b m" and inv: "piece_inv E b" and h: "m_hash b = generate_hash E b"
  shows "m_hash (make_move E b m) = generate_hash E (make_move E b m)"
proof -
  let ?r4 = "mm_place E b m (mm_type_action E b m (mm_castling E b m (mm_clocks b m b)))"
  let ?res = "make_move E b m"
  let ?D = "if is_double_pawn_push m then zobrist_ep_file E (file_of (move_to m)) else 0"
  let ?Eb = "if m_enpassant_square b \<noteq> SQUARE_NULL
              then zobrist_ep_file E (file_of (m_enpassant_square b)) else 0"
  let ?T = "if m_turn b = BLACK then zobrist_black_move E else 0"
  have res: "?res = update_checkers E (mm_swap_turn E b ?r4)" by (simp add: make_move_def)
  have ph: "piece_hash E ?res = piece_hash E ?r4"
    unfolding res by (rule piece_hash_cong) (simp add: update_checkers_fields mm_swap_turn_fields)
  have ch: "castle_hash E ?res = castle_hash E ?r4"
    unfolding res by (rule castle_hash_cong) (simp add: update_checkers_fields mm_swap_turn_fields)
  have core: "hash_core E ?r4 = (?T XOR ?Eb) XOR ?D"
    unfolding make_move_core(2)[OF mf inv] hash_core_state[OF h] state_hash_def ..
  have h4: "m_hash ?r4 = ((?T XOR ?Eb) XOR ?D) XOR piece_hash E ?r4 XOR castle_hash E ?r4"
    by (rule xor_solve) (rule core[unfolded hash_core_def])
  have hres: "m_hash ?res = m_hash ?r4 XOR zobrist_black_move E XOR ?Eb"
    unfolding res by (simp add: update_checkers_fields mm_swap_turn_fields)
  have T1: "?T XOR zobrist_black_move E = (if m_turn ?res = BLACK then zobrist_black_move E else 0)"
    unfolding make_move_turn by (cases "m_turn b") simp_all
  have D1: "?D = (if m_enpassant_square ?res \<noteq> SQUARE_NULL
                  then zobrist_ep_file E (file_of (m_enpassant_square ?res)) else 0)"
  proof (cases "is_double_pawn_push m")
    case True
    then have e: "m_enpassant_square ?res = move_to m - pawn_push (m_turn b)"
      using kind_excl(2)[OF True] by (simp add: make_move_ep)
    show ?thesis unfolding e using True dpp_ep_square(2,3)[OF mf True] by simp
  next
    case False
    then show ?thesis by (simp add: make_move_ep)
  qed
  have "m_hash ?res = piece_hash E ?r4 XOR ((?T XOR zobrist_black_move E) XOR ?D) XOR castle_hash E ?r4"
    unfolding hres h4 by (rule xor_rearrange)
  also have "\<dots> = generate_hash E ?res"
    unfolding generate_hash_parts state_hash_def ph ch T1 D1[symmetric] ..
  finally show ?thesis .
qed

lemma mm_castling_rights:
  "m_castling_rights (mm_castling E b m r) KINGSIDE t
     = (m_castling_rights r KINGSIDE t
        \<and> \<not> (t = m_turn b \<and> (get_piece_at b (move_from m) = KING
                \<or> get_piece_at b (move_from m) = ROOK \<and> move_from m = king_home (m_turn b) + 3)))"
  "m_castling_rights (mm_castling E b m r) QUEENSIDE t
     = (m_castling_rights r QUEENSIDE t
        \<and> \<not> (t = m_turn b \<and> (get_piece_at b (move_from m) = KING
                \<or> get_piece_at b (move_from m) = ROOK \<and> move_from m = king_home (m_turn b) - 4)))"
  by (auto simp: mm_castling_def Let_def set_castling_fields king_home_def
        SQUARE_H1_def SQUARE_H8_def SQUARE_A1_def SQUARE_A8_def)

lemma mm_type_action_rights:
  "m_castling_rights (mm_type_action E b m r) KINGSIDE t
     = (m_castling_rights r KINGSIDE t
        \<and> \<not> (t = flip (m_turn b) \<and> is_capture m \<and> move_to m = king_home (flip (m_turn b)) + 3))"
  "m_castling_rights (mm_type_action E b m r) QUEENSIDE t
     = (m_castling_rights r QUEENSIDE t
        \<and> \<not> (t = flip (m_turn b) \<and> is_capture m \<and> move_to m = king_home (flip (m_turn b)) - 4))"
  by (cases "m_turn b";
      auto simp: mm_type_action_def Let_def set_castling_fields pop_piece_fields move_piece_fields
        king_home_def SQUARE_H1_def SQUARE_H8_def SQUARE_A1_def SQUARE_A8_def)+

lemma make_move_rights:
  "m_castling_rights (make_move E b m) KINGSIDE t
     = (m_castling_rights b KINGSIDE t
        \<and> \<not> (t = m_turn b \<and> (get_piece_at b (move_from m) = KING
                \<or> get_piece_at b (move_from m) = ROOK \<and> move_from m = king_home (m_turn b) + 3))
        \<and> \<not> (t = flip (m_turn b) \<and> is_capture m \<and> move_to m = king_home (flip (m_turn b)) + 3))"
  "m_castling_rights (make_move E b m) QUEENSIDE t
     = (m_castling_rights b QUEENSIDE t
        \<and> \<not> (t = m_turn b \<and> (get_piece_at b (move_from m) = KING
                \<or> get_piece_at b (move_from m) = ROOK \<and> move_from m = king_home (m_turn b) - 4))
        \<and> \<not> (t = flip (m_turn b) \<and> is_capture m \<and> move_to m = king_home (flip (m_turn b)) - 4))"
  by (simp_all add: make_move_def update_checkers_fields mm_swap_turn_fields mm_place_fields
        mm_type_action_rights mm_castling_rights mm_clocks_fields conj_assoc)

lemma make_move_mailbox_other:
  assumes mf: "move_facts b m"
    and s: "s \<noteq> move_from m" "s \<noteq> move_to m"
    and ep: "is_ep_capture m \<Longrightarrow> s \<noteq> move_to m - pawn_push (m_turn b)"
    and kc: "move_type m = KING_CASTLE \<Longrightarrow> s \<noteq> king_home (m_turn b) + 3 \<and> s \<noteq> king_home (m_turn b) + 1"
    and qc: "move_type m = QUEEN_CASTLE \<Longrightarrow> s \<noteq> king_home (m_turn b) - 4 \<and> s \<noteq> king_home (m_turn b) - 1"
  shows "m_board_pieces (make_move E b m) s = m_board_pieces b s"
proof -
  let ?r2 = "mm_castling E b m (mm_clocks b m b)"
  note d = move_factsD[OF mf]
  have mb: "m_board_pieces ?r2 = m_board_pieces b" by (simp add: mm_castling_fields mm_clocks_fields)
  have o: "m_board_pieces (make_move E b m) s = m_board_pieces (mm_type_action E b m ?r2) s"
    unfolding make_move_mailbox using s by simp
  consider (cap) "is_capture m" | (dpp) "\<not> is_capture m" "is_double_pawn_push m"
    | (kc) "\<not> is_capture m" "\<not> is_double_pawn_push m" "move_type m = KING_CASTLE"
    | (qc) "\<not> is_capture m" "\<not> is_double_pawn_push m" "move_type m = QUEEN_CASTLE"
    | (other) "\<not> is_capture m" "\<not> is_double_pawn_push m" "\<not> is_castle m"
    using kind_excl(6)[of m] by blast
  then have "m_board_pieces (mm_type_action E b m ?r2) s = m_board_pieces b s"
  proof cases
    case cap
    then show ?thesis using s(2) ep by (simp add: mm_type_action_fields mb)
  next
    case dpp
    then show ?thesis by (simp add: mm_type_action_fields mb)
  next
    case kc
    note g = d(8)[OF kc(3)]
    have ff: "move_from m = king_home (m_turn b)" and tt: "move_to m = king_home (m_turn b) + 2"
      using g by simp_all
    from assms(5)[OF kc(3)] kc(1,2) show ?thesis
      unfolding mm_type_action_fields mb ff tt using kc(3) by simp
  next
    case qc
    note g = d(9)[OF qc(3)]
    have ff: "move_from m = king_home (m_turn b)" and tt: "move_to m = king_home (m_turn b) - 2"
      using g by simp_all
    from assms(6)[OF qc(3)] qc(1,2) show ?thesis
      unfolding mm_type_action_fields mb ff tt using qc(3) by simp
  next
    case other
    then show ?thesis by (simp add: mm_type_action_fields mb kind_excl(6))
  qed
  then show ?thesis using o by simp
qed

lemma rook_square_kept:
  assumes mf: "move_facts b m"
    and rook: "m_board_pieces b s = Pc ROOK t"
    and n1: "\<not> (t = m_turn b \<and> (get_piece_at b (move_from m) = KING
                \<or> get_piece_at b (move_from m) = ROOK \<and> move_from m = s))"
    and n2: "\<not> (t = flip (m_turn b) \<and> is_capture m \<and> move_to m = s)"
    and s: "s = king_home t + 3 \<or> s = king_home t - 4"
  shows "m_board_pieces (make_move E b m) s = Pc ROOK t"
proof -
  note d = move_factsD[OF mf]
  have a: "s \<noteq> move_from m"
  proof
    assume e: "s = move_from m"
    with rook d(3) have "get_piece_at b (move_from m) = ROOK" "t = m_turn b" by simp_all
    with n1 e show False by simp
  qed
  have b: "s \<noteq> move_to m"
  proof
    assume e: "s = move_to m"
    with rook have ne: "m_board_pieces b (move_to m) = Pc ROOK t" by simp
    then have c: "is_capture m" using d(6) by fastforce
    have nep: "\<not> is_ep_capture m" using d(5) ne by fastforce
    from d(4)[OF c nep] ne have "t = flip (m_turn b)" by simp
    with n2 c e show False by simp
  qed
  have c: "is_ep_capture m \<Longrightarrow> s \<noteq> move_to m - pawn_push (m_turn b)"
    using d(5) rook by fastforce
  have k: "move_type m = KING_CASTLE \<or> move_type m = QUEEN_CASTLE \<Longrightarrow> t = flip (m_turn b)"
  proof -
    assume "move_type m = KING_CASTLE \<or> move_type m = QUEEN_CASTLE"
    then have "get_piece_at b (move_from m) = KING" using d(8,9) by blast
    with n1 have "t \<noteq> m_turn b" by simp
    then show "t = flip (m_turn b)" by (cases t; cases "m_turn b") simp_all
  qed
  have far: "s \<noteq> king_home (flip t) + 3" "s \<noteq> king_home (flip t) + 1"
      "s \<noteq> king_home (flip t) - 4" "s \<noteq> king_home (flip t) - 1"
    using s by (cases t; auto simp: king_home_def)+
  have kc: "move_type m = KING_CASTLE \<Longrightarrow> s \<noteq> king_home (m_turn b) + 3 \<and> s \<noteq> king_home (m_turn b) + 1"
  proof -
    assume e: "move_type m = KING_CASTLE"
    then have "flip t = m_turn b" using k by (simp add: flip_flip)
    then show ?thesis using far by simp
  qed
  have qc: "move_type m = QUEEN_CASTLE \<Longrightarrow> s \<noteq> king_home (m_turn b) - 4 \<and> s \<noteq> king_home (m_turn b) - 1"
  proof -
    assume e: "move_type m = QUEEN_CASTLE"
    then have "flip t = m_turn b" using k by (simp add: flip_flip)
    then show ?thesis using far by simp
  qed
  show ?thesis
    using make_move_mailbox_other[OF mf a b c kc qc, of E] rook by simp
qed

lemma make_move_castle_ok:
  assumes mf: "move_facts b m" and co: "castle_ok b"
  shows "castle_ok (make_move E b m)"
  unfolding castle_ok_iff
proof (intro allI conjI impI)
  fix t
  assume r: "m_castling_rights (make_move E b m) KINGSIDE t"
  note g = r[unfolded make_move_rights]
  from g co have rook: "m_board_pieces b (king_home t + 3) = Pc ROOK t"
    unfolding castle_ok_iff by blast
  have n1: "\<not> (t = m_turn b \<and> (get_piece_at b (move_from m) = KING
                \<or> get_piece_at b (move_from m) = ROOK \<and> move_from m = king_home t + 3))"
    using g by auto
  have n2: "\<not> (t = flip (m_turn b) \<and> is_capture m \<and> move_to m = king_home t + 3)"
    using g by auto
  show "m_board_pieces (make_move E b m) (king_home t + 3) = Pc ROOK t"
    by (rule rook_square_kept[OF mf rook n1 n2]) simp
next
  fix t
  assume r: "m_castling_rights (make_move E b m) QUEENSIDE t"
  note g = r[unfolded make_move_rights]
  from g co have rook: "m_board_pieces b (king_home t - 4) = Pc ROOK t"
    unfolding castle_ok_iff by blast
  have n1: "\<not> (t = m_turn b \<and> (get_piece_at b (move_from m) = KING
                \<or> get_piece_at b (move_from m) = ROOK \<and> move_from m = king_home t - 4))"
    using g by auto
  have n2: "\<not> (t = flip (m_turn b) \<and> is_capture m \<and> move_to m = king_home t - 4)"
    using g by auto
  show "m_board_pieces (make_move E b m) (king_home t - 4) = Pc ROOK t"
    by (rule rook_square_kept[OF mf rook n1 n2]) simp
qed

lemma make_move_ep_ok:
  assumes mf: "move_facts b m"
  shows "ep_ok (make_move E b m)"
proof (cases "\<not> is_capture m \<and> is_double_pawn_push m")
  case False
  then have "m_enpassant_square (make_move E b m) = SQUARE_NULL"
    unfolding make_move_ep by auto
  then show ?thesis by (simp add: ep_ok_def)
next
  case True
  then have dpp: "is_double_pawn_push m" and nc: "\<not> is_capture m" by simp_all
  let ?up = "pawn_push (m_turn b)" let ?e = "move_from m + ?up"
  note d = move_factsD[OF mf]
  note q = dpp_ep_square[OF mf dpp]
  note x = kind_excl(2)[OF dpp]
  have e: "m_enpassant_square (make_move E b m) = ?e"
    using True by (simp add: make_move_ep q(1))
  have tt: "move_to m = move_from m + 2 * ?up" and pw: "get_piece_at b (move_from m) = PAWN"
    and em: "m_board_pieces b ?e = NO_PIECE" using d(7)[OF dpp] by simp_all
  have up: "?up \<noteq> 0" "pawn_push (flip (m_turn b)) = - ?up"
    by (cases "m_turn b"; simp add: pawn_push_def)+
  have nep: "\<not> is_ep_capture m" using kind_excl(4)[of m] nc by blast
  have nk: "move_type m \<noteq> KING_CASTLE" "move_type m \<noteq> QUEEN_CASTLE"
    using x kind_excl(6)[of m] by simp_all
  have a: "m_board_pieces (make_move E b m) ?e = NO_PIECE"
    unfolding em[symmetric]
    by (rule make_move_mailbox_other[OF mf]) (use up tt nep nk in simp_all)
  have b: "m_board_pieces (make_move E b m) (?e + ?up) = Pc PAWN (flip (flip (m_turn b)))"
    unfolding make_move_mailbox flip_flip using x pw tt by simp
  have rng: "if flip (m_turn b) = WHITE then 40 \<le> ?e \<and> ?e < 48 else 16 \<le> ?e \<and> ?e < 24"
    using q(4) unfolding q(1) by (cases "m_turn b") simp_all
  show ?thesis
    unfolding ep_ok_def e make_move_turn up(2) using a b rng by simp
qed

lemma make_move_king_safe:
  assumes "legal E b m"
  shows "their_king_safe E (make_move E b m)"
proof -
  have "king_safe_after E b m" using legalD(10)[OF assms] by (simp add: legal_piece_def)
  then show ?thesis
    unfolding their_king_safe_def king_safe_after_def Let_def make_move_turn flip_flip .
qed

lemma make_move_checkers_ok: "checkers_ok E (make_move E b m)"
  unfolding make_move_def by (rule update_checkers_ok)

lemma board_ok_make_move:
  assumes ok: "board_ok E b" and lg: "legal E b m"
  shows "board_ok E (make_move E b m)"
proof -
  have ag: "mailbox_agrees b" and h: "m_hash b = generate_hash E b" and psq: "psq_ok E b"
    and ep: "ep_ok b" and co: "castle_ok b" using ok by (simp_all add: board_ok_def)
  have inv: "piece_inv E b" using ag psq by (simp add: piece_inv_def)
  note mf = legal_move_facts[OF ag ep co lg]
  note c = make_move_core(1)[OF mf inv, unfolded piece_inv_def]
  show ?thesis
    unfolding board_ok_def
    using c make_move_hash[OF mf inv h] make_move_checkers_ok make_move_king_safe[OF lg]
      make_move_ep_ok[OF mf] make_move_castle_ok[OF mf co]
    by blast
qed

section \<open>The invariants imply \<open>is_valid\<close>\<close>

lemma pieces_disjoint:
  assumes ag: "mailbox_agrees b" and ne: "pt \<noteq> PIECE_NONE" "pt' \<noteq> PIECE_NONE"
    and d: "pt \<noteq> pt' \<or> t \<noteq> t'"
  shows "m_pieces b pt t AND m_pieces b pt' t' = 0"
proof (rule bit_eqI)
  fix n
  have "\<not> (bit (m_pieces b pt t) n \<and> bit (m_pieces b pt' t') n)"
  proof
    assume a: "bit (m_pieces b pt t) n \<and> bit (m_pieces b pt' t') n"
    then have n: "n < 64" using bit_imp_le_length[of "m_pieces b pt t" n] by simp
    then have r: "0 \<le> int n" "int n < 64" by simp_all
    from a have "bb_test (m_pieces b pt t) (int n)" "bb_test (m_pieces b pt' t') (int n)"
      by (simp_all add: bb_test_def)
    then have "m_board_pieces b (int n) = Pc pt t" "m_board_pieces b (int n) = Pc pt' t'"
      using agrees_test[OF ag r ne(1)] agrees_test[OF ag r ne(2)] by simp_all
    with d show False by simp
  qed
  then show "bit (m_pieces b pt t AND m_pieces b pt' t') n = bit (0 :: 64 word) n"
    by (simp add: bit_and_iff)
qed

lemma bitboard_consistency_ok:
  assumes ag: "mailbox_agrees b"
  shows "bitboard_consistency b = Some (get_pieces b)"
proof -
  note dj = pieces_disjoint[OF ag]
  show ?thesis
    unfolding bitboard_consistency_def piece_types_def get_pieces_def get_pieces_turn_def
    by (simp add: dj bit.conj_disj_distrib ac_simps)
qed

lemma piece_square_consistency_ok:
  assumes ag: "mailbox_agrees b"
  shows "piece_square_consistency b (get_pieces b)"
  unfolding piece_square_consistency_def list_all_iff
proof (intro ballI)
  fix sq :: int assume "sq \<in> set (map int [0..<64])"
  then have r: "0 \<le> sq" "sq < 64" unfolding squares_set by simp_all
  show "if m_board_pieces b sq = NO_PIECE then \<not> bb_test (get_pieces b) sq
        else bb_test (m_pieces b (get_piece_at b sq) (get_turn (m_board_pieces b sq))) sq"
  proof (cases "m_board_pieces b sq")
    case NO_PIECE
    then show ?thesis using all_occ[OF ag r] by simp
  next
    case (Pc pt t)
    then have "pt \<noteq> PIECE_NONE" using agrees_valid[OF ag r, of t] by auto
    then show ?thesis using Pc agrees_test[OF ag r, of pt t] by (simp add: get_piece_at_def)
  qed
qed

lemma board_ok_valid:
  assumes ok: "board_ok E b"
  shows "is_valid E b"
proof -
  have ag: "mailbox_agrees b" and h: "m_hash b = generate_hash E b" and psq: "psq_ok E b"
    and ks: "their_king_safe E b" using ok by (simp_all add: board_ok_def)
  show ?thesis
    unfolding is_valid_def Let_def
    using ks[unfolded their_king_safe_def] bitboard_consistency_ok[OF ag]
      piece_square_consistency_ok[OF ag] h psq[unfolded psq_ok_def]
    by simp
qed

section \<open>\<open>make_move\<close> on a legal move\<close>


text \<open>
  C1. For every board that satisfies the board invariants of a legal position and every
  move that \<open>Board::legal\<close> accepts on it, the board returned by \<open>make_move\<close> passes
  \<open>is_valid()\<close> (the piece bitboards are pairwise disjoint and agree with the mailbox, the
  stored hash equals \<open>generate_hash()\<close>, the stored score and phase equal their
  recomputations) and its cached checkers are correct.
\<close>

theorem make_move_preserves_valid:
  "board_ok E b \<Longrightarrow> legal E b m \<Longrightarrow>
     is_valid E (make_move E b m) \<and> checkers_ok E (make_move E b m)"
  using board_ok_valid[OF board_ok_make_move] make_move_checkers_ok by blast

lemma castles_ok: "board_ok std_env (Board_fen std_env castles_fen)"
  by code_simp

lemma castles_legal: "legal std_env (Board_fen std_env castles_fen) (mk_move 4 6 KING_CASTLE)"
  by code_simp

theorem make_move_preserves_valid_witness:
  "board_ok std_env (Board_fen std_env castles_fen)
   \<and> legal std_env (Board_fen std_env castles_fen) (mk_move 4 6 KING_CASTLE)
   \<and> is_valid std_env (make_move std_env (Board_fen std_env castles_fen) (mk_move 4 6 KING_CASTLE))
   \<and> checkers_ok std_env (make_move std_env (Board_fen std_env castles_fen) (mk_move 4 6 KING_CASTLE))"
  using make_move_preserves_valid[OF castles_ok castles_legal] castles_ok castles_legal by simp





section \<open>FEN: the constructor reads back what \<open>to_fen\<close> emits\<close>

subsection \<open>Characters and numbers\<close>

lemma space_chars: "isspace (CHR '' '')" "\<not> isspace (CHR ''/'')" "\<not> isspace (CHR ''w'')"
  "\<not> isspace (CHR ''b'')" "\<not> isspace (CHR ''-'')" "\<not> isdigit (CHR ''/'')"
  by (simp_all add: isspace_def isdigit_def)

lemma digit_props:
  assumes "n < 10"
  shows "isdigit (digit_char n)" "\<not> isspace (digit_char n)" "char_diff (digit_char n) (CHR ''0'') = int n"
  using assms by (simp_all add: digit_char_def isdigit_def isspace_def char_diff_def)

lemma upper_chars:
  "toupper (CHR ''p'') = CHR ''P''" "toupper (CHR ''n'') = CHR ''N''" "toupper (CHR ''b'') = CHR ''B''"
  "toupper (CHR ''r'') = CHR ''R''" "toupper (CHR ''q'') = CHR ''Q''" "toupper (CHR ''k'') = CHR ''K''"
  by code_simp+

lemma piece_chars:
  "fen_piece_char (Pc PAWN WHITE) = CHR ''P''" "fen_piece_char (Pc PAWN BLACK) = CHR ''p''"
  "fen_piece_char (Pc KNIGHT WHITE) = CHR ''N''" "fen_piece_char (Pc KNIGHT BLACK) = CHR ''n''"
  "fen_piece_char (Pc BISHOP WHITE) = CHR ''B''" "fen_piece_char (Pc BISHOP BLACK) = CHR ''b''"
  "fen_piece_char (Pc ROOK WHITE) = CHR ''R''" "fen_piece_char (Pc ROOK BLACK) = CHR ''r''"
  "fen_piece_char (Pc QUEEN WHITE) = CHR ''Q''" "fen_piece_char (Pc QUEEN BLACK) = CHR ''q''"
  "fen_piece_char (Pc KING WHITE) = CHR ''K''" "fen_piece_char (Pc KING BLACK) = CHR ''k''"
  by code_simp+

lemma piece_char_props:
  assumes "pt \<noteq> PIECE_NONE"
  shows "\<not> isspace (fen_piece_char (Pc pt t))" "\<not> isdigit (fen_piece_char (Pc pt t))"
    "fen_piece_char (Pc pt t) \<noteq> CHR ''/''" "fen_piece (fen_piece_char (Pc pt t)) = pt"
    "isupper (fen_piece_char (Pc pt t)) \<longleftrightarrow> t = WHITE"
proof -
  show "\<not> isspace (fen_piece_char (Pc pt t))"
    using assms by (cases pt; cases t; simp add: piece_chars; code_simp)
  show "\<not> isdigit (fen_piece_char (Pc pt t))"
    using assms by (cases pt; cases t; simp add: piece_chars; code_simp)
  show "fen_piece_char (Pc pt t) \<noteq> CHR ''/''"
    using assms by (cases pt; cases t; simp add: piece_chars)
  show "fen_piece (fen_piece_char (Pc pt t)) = pt"
    using assms by (cases pt; cases t; simp add: piece_chars; code_simp)
  show "isupper (fen_piece_char (Pc pt t)) \<longleftrightarrow> t = WHITE"
    using assms by (cases pt; cases t; simp add: piece_chars; code_simp)
qed

lemma show_small: "0 \<le> i \<Longrightarrow> i < 10 \<Longrightarrow> show_int i = [digit_char (nat i)]"
proof -
  assume a: "0 \<le> i" "i < 10"
  then have "nat i < 10" by simp
  then have "show_nat (nat i) = [digit_char (nat i)]" by (simp add: show_nat.simps[of "nat i"])
  then show ?thesis using a by (simp add: show_int_def)
qed

lemma show_nat_digits: "\<forall>c \<in> set (show_nat n). \<not> isspace c"
proof (induction n rule: show_nat.induct)
  case (1 n)
  show ?case
  proof (cases "n < 10")
    case True
    then show ?thesis by (simp add: show_nat.simps[of n] digit_props)
  next
    case False
    then have "\<forall>c \<in> set (show_nat (n div 10)). \<not> isspace c" using 1 by simp
    moreover have "n mod 10 < 10" by simp
    ultimately show ?thesis using False digit_props(2)[of "n mod 10"]
      by (simp add: show_nat.simps[of n])
  qed
qed

lemma fen_number_show_nat: "fen_number (show_nat n) = int n"
proof (induction n rule: show_nat.induct)
  case (1 n)
  show ?case
  proof (cases "n < 10")
    case True
    then show ?thesis by (simp add: show_nat.simps[of n] fen_number_def digit_props)
  next
    case False
    then have ih: "fen_number (show_nat (n div 10)) = int (n div 10)" using 1 by simp
    have d: "char_diff (digit_char (n mod 10)) (CHR ''0'') = int (n mod 10)"
      by (rule digit_props(3)) simp
    have "fen_number (show_nat n) = fen_number (show_nat (n div 10)) * 10 + int (n mod 10)"
      using False d by (simp add: show_nat.simps[of n] fen_number_def)
    then show ?thesis unfolding ih by (simp add: zdiv_int zmod_int)
  qed
qed

lemma fen_number_show_int: "0 \<le> i \<Longrightarrow> fen_number (show_int i) = i"
  by (simp add: show_int_def fen_number_show_nat)

lemma show_int_nospace: "0 \<le> i \<Longrightarrow> \<forall>c \<in> set (show_int i). \<not> isspace c"
  using show_nat_digits by (simp add: show_int_def)

lemma fen_field_mid:
  assumes "\<forall>c \<in> set xs. \<not> isspace c"
  shows "fen_field (d # xs @ CHR '' '' # rest) = (xs, CHR '' '' # rest)"
proof -
  have "takeWhile (\<lambda>c. \<not> isspace c) (xs @ CHR '' '' # rest) = xs"
    using assms by (simp add: takeWhile_append space_chars)
  moreover have "dropWhile (\<lambda>c. \<not> isspace c) (xs @ CHR '' '' # rest) = CHR '' '' # rest"
    using assms by (simp add: dropWhile_append space_chars)
  ultimately show ?thesis by (simp add: fen_field_def)
qed

lemma fen_field_last:
  assumes "\<forall>c \<in> set xs. \<not> isspace c"
  shows "fen_field (d # xs) = (xs, [])"
  using assms by (simp add: fen_field_def)

subsection \<open>The placement field\<close>

lemma placement_digit:
  assumes "0 < space" "space < 10"
  shows "fen_placement E (show_int space @ cs) sq bd = fen_placement E cs (sq + space) bd"
proof -
  have n: "nat space < 10" using assms by simp
  show ?thesis
    using assms digit_props[OF n] by (simp add: show_small)
qed

lemma placement_piece:
  assumes "pt \<noteq> PIECE_NONE"
  shows "fen_placement E (fen_piece_char (Pc pt t) # cs) sq bd
           = fen_placement E cs (sq + 1) (set_piece E pt t sq bd)"
  using piece_char_props[OF assms, of t] by (cases t) simp_all

lemma rank_parse:
  assumes ok: "\<And>file t. 0 \<le> file \<Longrightarrow> file < 8 \<Longrightarrow> m_board_pieces b (make_square rank file) \<noteq> Pc PIECE_NONE t"
  shows "f \<le> 8 \<Longrightarrow> 0 \<le> space \<Longrightarrow> space \<le> int f \<Longrightarrow>
     fen_placement E (fen_rank_loop b rank (map int [f..<8]) space @ cs) (make_square rank (int f) - space) bd
       = fen_placement E cs (make_square rank 8)
           (fold (place E b) (map (\<lambda>file. make_square rank (int file)) [f..<8]) bd)"
proof (induction "8 - f" arbitrary: f space bd)
  case 0
  then have f: "f = 8" by simp
  show ?case
  proof (cases "space = 0")
    case True
    then show ?thesis by (simp add: f)
  next
    case False
    then have s: "0 < space" "space < 10" using 0 f by simp_all
    show ?thesis using False placement_digit[OF s, of E cs "make_square rank 8 - space" bd]
      by (simp add: f)
  qed
next
  case (Suc k)
  then have f: "f < 8" by simp
  then have l: "[f..<8] = f # [Suc f..<8]" by (simp add: upt_conv_Cons)
  let ?sq = "make_square rank (int f)"
  have k: "k = 8 - Suc f" "Suc f \<le> 8" using Suc f by simp_all
  have sq1: "make_square rank (int (Suc f)) = ?sq + 1" by (simp add: make_square_def)
  have sq1': "make_square rank (1 + int f) = ?sq + 1" by (simp add: make_square_def)
  show ?case
  proof (cases "m_board_pieces b ?sq")
    case NO_PIECE
    have "fen_placement E (fen_rank_loop b rank (map int [Suc f..<8]) (space + 1) @ cs)
              (make_square rank (int (Suc f)) - (space + 1)) bd
          = fen_placement E cs (make_square rank 8)
              (fold (place E b) (map (\<lambda>file. make_square rank (int file)) [Suc f..<8]) bd)"
      by (rule Suc.hyps(1)[OF k]) (use Suc.prems in simp_all)
    then show ?thesis using NO_PIECE unfolding l by (simp add: place_def sq1')
  next
    case (Pc pt t)
    have pt: "pt \<noteq> PIECE_NONE" using ok[of "int f" t] f Pc by auto
    have ih: "fen_placement E (fen_rank_loop b rank (map int [Suc f..<8]) 0 @ cs)
              (make_square rank (int (Suc f)) - 0) (set_piece E pt t ?sq bd)
          = fen_placement E cs (make_square rank 8)
              (fold (place E b) (map (\<lambda>file. make_square rank (int file)) [Suc f..<8])
                 (set_piece E pt t ?sq bd))"
      by (rule Suc.hyps(1)[OF k]) simp_all
    have pl: "place E b ?sq bd = set_piece E pt t ?sq bd"
      using Pc by (simp add: place_def get_piece_at_def)
    have step: "fen_placement E (fen_piece_char (Pc pt t) # fen_rank_loop b rank (map int [Suc f..<8]) 0 @ cs)
                  ?sq bd
          = fen_placement E cs (make_square rank 8)
              (fold (place E b) (map (\<lambda>file. make_square rank (int file)) [f..<8]) bd)"
      unfolding placement_piece[OF pt] l using ih by (simp add: sq1' pl)
    show ?thesis
    proof (cases "space = 0")
      case True
      then show ?thesis using Pc step unfolding l by simp
    next
      case False
      then have s: "0 < space" "space < 10" using Suc.prems f by simp_all
      have "fen_placement E (show_int space @ fen_piece_char (Pc pt t) #
                fen_rank_loop b rank (map int [Suc f..<8]) 0 @ cs) (?sq - space) bd
            = fen_placement E (fen_piece_char (Pc pt t) # fen_rank_loop b rank (map int [Suc f..<8]) 0 @ cs)
                ?sq bd"
        using placement_digit[OF s, of E _ "?sq - space" bd] by simp
      then show ?thesis using Pc step False unfolding l by simp
    qed
  qed
qed

lemma ranks_parse:
  assumes ok: "\<And>sq t. 0 \<le> sq \<Longrightarrow> sq < 64 \<Longrightarrow> m_board_pieces b sq \<noteq> Pc PIECE_NONE t"
  shows "n < 8 \<Longrightarrow>
     fen_placement E (fen_ranks b (Suc n) @ rest) (make_square (int n) 0) bd
       = (fold (place E b) (board_squares (Suc n)) bd, CHR '' '' # rest)"
proof (induction n arbitrary: bd)
  case 0
  have okr: "\<And>file t. 0 \<le> file \<Longrightarrow> file < 8 \<Longrightarrow> m_board_pieces b (make_square 0 file) \<noteq> Pc PIECE_NONE t"
    by (rule ok) (simp_all add: make_square_def)
  have "fen_placement E (fen_rank_loop b 0 (map int [0..<8]) 0 @ CHR '' '' # rest) (make_square 0 (int 0) - 0) bd
       = fen_placement E (CHR '' '' # rest) (make_square 0 8)
           (fold (place E b) (map (\<lambda>file. make_square 0 (int file)) [0..<8]) bd)"
    by (rule rank_parse[OF okr]) simp_all
  then show ?case
    by (simp add: fen_ranks_def board_squares_def rank_squares_def space_chars)
next
  case (Suc n)
  then have n: "n < 8" "int (Suc n) < 8" by simp_all
  let ?r = "int (Suc n)"
  have okr: "\<And>file t. 0 \<le> file \<Longrightarrow> file < 8 \<Longrightarrow> m_board_pieces b (make_square ?r file) \<noteq> Pc PIECE_NONE t"
  proof (rule ok)
    fix fl :: int assume "0 \<le> fl" "fl < 8"
    then show "0 \<le> make_square ?r fl" "make_square ?r fl < 64"
      using n(2) by (simp_all add: make_square_def)
  qed
  have fr: "fen_ranks b (Suc (Suc n)) = fen_rank_loop b ?r (map int [0..<8]) 0 @ CHR ''/'' # fen_ranks b (Suc n)"
    by (simp add: fen_ranks_def)
  have bs: "board_squares (Suc (Suc n)) = rank_squares ?r @ board_squares (Suc n)"
    by (simp add: board_squares_def)
  have sq: "make_square ?r 8 - 16 = make_square (int n) 0" by (simp add: make_square_def)
  have "fen_placement E (fen_rank_loop b ?r (map int [0..<8]) 0 @ CHR ''/'' # fen_ranks b (Suc n) @ rest)
            (make_square ?r (int 0) - 0) bd
       = fen_placement E (CHR ''/'' # fen_ranks b (Suc n) @ rest) (make_square ?r 8)
           (fold (place E b) (map (\<lambda>file. make_square ?r (int file)) [0..<8]) bd)"
    by (rule rank_parse[OF okr]) simp_all
  also have "\<dots> = fen_placement E (fen_ranks b (Suc n) @ rest) (make_square (int n) 0)
           (fold (place E b) (rank_squares ?r) bd)"
    unfolding rank_squares_def sq[symmetric] by (simp add: space_chars)
  also have "\<dots> = (fold (place E b) (board_squares (Suc n)) (fold (place E b) (rank_squares ?r) bd),
                    CHR '' '' # rest)"
    by (rule Suc.IH[OF n(1)])
  finally show ?case unfolding fr bs by simp
qed

lemma to_fen_split:
  "to_fen b = fen_ranks b 8
     @ (if m_turn b = WHITE then ''w '' else ''b '')
     @ (let cs = concat (map (\<lambda>turn. concat (map (\<lambda>side.
                  if m_castling_rights b side turn then [fen_castle_side_char side turn] else [])
                  [KINGSIDE, QUEENSIDE])) [WHITE, BLACK])
        in cs @ (if cs \<noteq> [] then '' '' else ''- ''))
     @ (if m_enpassant_square b = SQUARE_NULL then ''-'' else get_square (m_enpassant_square b))
     @ '' ''
     @ show_int (m_half_move_clock b) @ '' '' @ show_int (m_full_move_clock b)"
  unfolding to_fen_def fen_ranks_def ..

lemma placement_to_fen:
  assumes ok: "\<And>sq t. 0 \<le> sq \<Longrightarrow> sq < 64 \<Longrightarrow> m_board_pieces b sq \<noteq> Pc PIECE_NONE t"
  shows "fen_placement E (fen_ranks b 8 @ rest) SQUARE_A8 bd
       = (fold (place E b) (board_squares 8) bd, CHR '' '' # rest)"
  using ranks_parse[OF ok, of 7 E rest bd]
  by (simp add: SQUARE_A8_def make_square_def eval_nat_numeral)

lemma bb_zero: "bb_squares 0 = []" "bb_count 0 = 0" "bb_fold f 0 acc = acc"
proof -
  show s: "bb_squares 0 = []" by (simp add: bb_squares_def)
  show "bb_count 0 = 0" by (simp add: bb_count_def s)
  show "bb_fold f 0 acc = acc" by (simp add: bb_fold_squares s)
qed

lemma empty_board_inv:
  "piece_inv E (empty_board E)" "hash_core E (empty_board E) = 0"
proof -
  have ag: "mailbox_agrees (empty_board E)"
    by (simp add: mailbox_agrees_iff empty_board_def bb_test_zero)
  have "material_phase E (empty_board E) = (word_of_int (Phases_Total E), (0, 0))"
    by (simp add: material_phase_def piece_types_def empty_board_def bb_zero ms_add_def ms_mul_def)
  then have "psq_ok E (empty_board E)" by (simp add: psq_ok_def empty_board_def)
  with ag show "piece_inv E (empty_board E)" by (simp add: piece_inv_def)
  show "hash_core E (empty_board E) = 0"
    by (simp add: hash_core_def piece_hash_def castle_hash_def all_turn_pieces_def piece_types_def
          empty_board_def bb_zero)
qed

lemma place_fields:
  "m_turn (place E b sq bd) = m_turn bd"
  "m_castling_rights (place E b sq bd) = m_castling_rights bd"
  "m_enpassant_square (place E b sq bd) = m_enpassant_square bd"
  "m_half_move_clock (place E b sq bd) = m_half_move_clock bd"
  "m_full_move_clock (place E b sq bd) = m_full_move_clock bd"
  "m_board_pieces (place E b sq bd) = (m_board_pieces bd)(sq := if m_board_pieces b sq = NO_PIECE
       then m_board_pieces bd sq else m_board_pieces b sq)"
proof -
  show "m_board_pieces (place E b sq bd) = (m_board_pieces bd)(sq := if m_board_pieces b sq = NO_PIECE
       then m_board_pieces bd sq else m_board_pieces b sq)"
    by (cases "m_board_pieces b sq") (simp_all add: place_def set_piece_fields get_piece_at_def)
qed (simp_all add: place_def set_piece_fields)

lemma place_fold_fields:
  "m_turn (fold (place E b) sqs bd) = m_turn bd"
  "m_castling_rights (fold (place E b) sqs bd) = m_castling_rights bd"
  "m_enpassant_square (fold (place E b) sqs bd) = m_enpassant_square bd"
  "m_half_move_clock (fold (place E b) sqs bd) = m_half_move_clock bd"
  "m_full_move_clock (fold (place E b) sqs bd) = m_full_move_clock bd"
  by (induction sqs arbitrary: bd; simp add: place_fields)+

lemma place_fold_inv:
  assumes ok: "\<And>sq t. 0 \<le> sq \<Longrightarrow> sq < 64 \<Longrightarrow> m_board_pieces b sq \<noteq> Pc PIECE_NONE t"
  shows "distinct sqs \<Longrightarrow> \<forall>sq \<in> set sqs. 0 \<le> sq \<and> sq < 64 \<and> m_board_pieces bd sq = NO_PIECE \<Longrightarrow>
     piece_inv E bd \<Longrightarrow>
     piece_inv E (fold (place E b) sqs bd) \<and> hash_core E (fold (place E b) sqs bd) = hash_core E bd
     \<and> (\<forall>sq. m_board_pieces (fold (place E b) sqs bd) sq
              = (if sq \<in> set sqs then m_board_pieces b sq else m_board_pieces bd sq))"
proof (induction sqs arbitrary: bd)
  case Nil
  then show ?case by simp
next
  case (Cons s sqs)
  let ?bd = "place E b s bd"
  have r: "0 \<le> s" "s < 64" and e: "m_board_pieces bd s = NO_PIECE" using Cons.prems(2) by simp_all
  have ns: "s \<notin> set sqs" and d: "distinct sqs" using Cons.prems(1) by simp_all
  have st: "piece_inv E ?bd \<and> hash_core E ?bd = hash_core E bd"
  proof (cases "m_board_pieces b s")
    case NO_PIECE
    then show ?thesis using Cons.prems(3) by (simp add: place_def)
  next
    case (Pc pt t)
    then have pt: "pt \<noteq> PIECE_NONE" using ok[OF r, of t] by auto
    from set_piece_inv[OF Cons.prems(3) r pt e, of t] Pc show ?thesis
      by (simp add: place_def get_piece_at_def)
  qed
  have mb: "m_board_pieces ?bd = (m_board_pieces bd)(s := m_board_pieces b s)"
    using e by (auto simp: place_fields)
  have pre: "\<forall>sq \<in> set sqs. 0 \<le> sq \<and> sq < 64 \<and> m_board_pieces ?bd sq = NO_PIECE"
    using Cons.prems(2) ns unfolding mb by auto
  from Cons.IH[OF d pre] st
  have ih: "piece_inv E (fold (place E b) sqs ?bd)"
      "hash_core E (fold (place E b) sqs ?bd) = hash_core E ?bd"
      "\<And>sq. m_board_pieces (fold (place E b) sqs ?bd) sq
              = (if sq \<in> set sqs then m_board_pieces b sq else m_board_pieces ?bd sq)"
    by simp_all
  show ?case using ih(1,2) st ns unfolding fold_simps ih(3) mb by auto
qed

lemma board_squares_all:
  "distinct (board_squares 8)" "set (board_squares 8) = {sq. 0 \<le> sq \<and> sq < 64}"
proof -
  have e: "board_squares 8 = map int (concat (map (\<lambda>r. map (\<lambda>f. r * 8 + f) [0..<8]) (rev [0..<8])))"
    by (simp add: board_squares_def rank_squares_def make_square_def map_concat comp_def rev_map)
  have l: "concat (map (\<lambda>r. map (\<lambda>f. r * 8 + f) [0..<8]) (rev [0..<8]))
      = [56,57,58,59,60,61,62,63,48,49,50,51,52,53,54,55,40,41,42,43,44,45,46,47,32,33,34,35,36,37,38,39,
         24,25,26,27,28,29,30,31,16,17,18,19,20,21,22,23,8,9,10,11,12,13,14,15,0::nat,1,2,3,4,5,6,7]"
    by (simp add: upt_rec)
  have d: "distinct (concat (map (\<lambda>r. map (\<lambda>f. r * 8 + f) [0..<8]) (rev [0..<8])))"
    unfolding l by simp
  show "distinct (board_squares 8)" unfolding e using d by (simp add: distinct_map)
  have s: "set (concat (map (\<lambda>r. map (\<lambda>f. r * 8 + f) [0..<8]) (rev [0..<8]))) = {0..<64}"
  proof -
    have "set (concat (map (\<lambda>r. map (\<lambda>f. r * 8 + f) [0..<8]) (rev [0..<8]))) = (\<Union>r<8. (\<lambda>f. r * 8 + f) ` {0..<8})"
      by (auto simp: lessThan_def)
    also have "\<dots> = {0..<64::nat}"
    proof (intro set_eqI iffI)
      fix x :: nat assume "x \<in> (\<Union>r<8. (\<lambda>f. r * 8 + f) ` {0..<8})"
      then show "x \<in> {0..<64}" by auto
    next
      fix x :: nat assume "x \<in> {0..<64}"
      then have "x div 8 < 8" "x mod 8 < 8" "x = (x div 8) * 8 + x mod 8" by auto
      then show "x \<in> (\<Union>r<8. (\<lambda>f. r * 8 + f) ` {0..<8})" by (metis UN_I atLeastLessThan_iff imageI le0 lessThan_iff)
    qed
    finally show ?thesis .
  qed
  show "set (board_squares 8) = {sq. 0 \<le> sq \<and> sq < 64}"
  proof -
    have "set (board_squares 8) = int ` {0..<64}" unfolding e set_map s by (rule refl)
    also have "\<dots> = {sq. 0 \<le> sq \<and> sq < 64}"
    proof (intro set_eqI iffI)
      fix x assume "x \<in> int ` {0..<64}" then show "x \<in> {sq. 0 \<le> sq \<and> sq < 64}" by auto
    next
      fix x :: int assume "x \<in> {sq. 0 \<le> sq \<and> sq < 64}"
      then have "x = int (nat x)" "nat x \<in> {0..<64}" by auto
      then show "x \<in> int ` {0..<64}" by (metis imageI)
    qed
    finally show ?thesis .
  qed
qed

subsection \<open>The en-passant and castling fields\<close>

lemma square_chars:
  assumes "0 \<le> sq" "sq < 64"
  shows "\<not> isspace (char_of (97 + nat (file_of sq)))" "char_of (97 + nat (file_of sq)) \<noteq> CHR ''-''"
    "\<not> isspace (char_of (49 + nat (rank_of sq)))"
    "make_square (char_diff (char_of (49 + nat (rank_of sq))) (CHR ''1''))
       (char_diff (char_of (97 + nat (file_of sq))) (CHR ''a'')) = sq"
proof -
  have f: "nat (file_of sq) < 8" and r: "nat (rank_of sq) < 8"
    using assms by (simp_all add: file_of_def rank_of_def)
  have cf: "of_char (char_of (97 + nat (file_of sq))) = 97 + nat (file_of sq)"
    using f by (simp add: of_char_of)
  have cr: "of_char (char_of (49 + nat (rank_of sq))) = 49 + nat (rank_of sq)"
    using r by (simp add: of_char_of)
  show "\<not> isspace (char_of (97 + nat (file_of sq)))" using f by (simp add: isspace_def cf)
  show "\<not> isspace (char_of (49 + nat (rank_of sq)))" using r by (simp add: isspace_def cr)
  show "char_of (97 + nat (file_of sq)) \<noteq> CHR ''-''"
  proof
    assume "char_of (97 + nat (file_of sq)) = CHR ''-''"
    then have "of_char (char_of (97 + nat (file_of sq))) = (of_char (CHR ''-'') :: nat)" by simp
    then show False unfolding cf by simp
  qed
  have nn: "file_of sq \<ge> 0" "rank_of sq \<ge> 0" using assms by (simp_all add: file_of_def rank_of_def)
  have dr: "char_diff (char_of (49 + nat (rank_of sq))) (CHR ''1'') = rank_of sq"
    unfolding char_diff_def cr using nn by simp
  have df: "char_diff (char_of (97 + nat (file_of sq))) (CHR ''a'') = file_of sq"
    unfolding char_diff_def cf using nn by simp
  show "make_square (char_diff (char_of (49 + nat (rank_of sq))) (CHR ''1''))
       (char_diff (char_of (97 + nat (file_of sq))) (CHR ''a'')) = sq"
    unfolding dr df by (simp add: make_square_def file_of_def rank_of_def)
qed

lemma fen_ep_none: "fen_ep (d # CHR ''-'' # CHR '' '' # r) e = (e, CHR '' '' # r)"
  by (simp add: space_chars)

lemma fen_ep_square:
  assumes "0 \<le> sq" "sq < 64"
  shows "fen_ep (d # get_square sq @ CHR '' '' # r) e = (sq, CHR '' '' # r)"
  using square_chars[OF assms] by (simp add: get_square_def space_chars)

lemma castle_step_fields:
  "m_pieces (castle_step E ch b) = m_pieces b"
  "m_board_pieces (castle_step E ch b) = m_board_pieces b"
  "m_turn (castle_step E ch b) = m_turn b"
  "m_enpassant_square (castle_step E ch b) = m_enpassant_square b"
  "m_half_move_clock (castle_step E ch b) = m_half_move_clock b"
  "m_full_move_clock (castle_step E ch b) = m_full_move_clock b"
  "hash_core E (castle_step E ch b) = hash_core E b"
  "m_castling_rights (castle_step E ch b) side t
     = (m_castling_rights b side t
        \<or> (fen_castle_side ch = side \<and> side \<noteq> NO_SIDE \<and> (if isupper ch then WHITE else BLACK) = t))"
  by (auto simp: castle_step_def set_castling_fields set_castling_inv)

lemma castle_fold_fields:
  "m_pieces (fold (castle_step E) cs b) = m_pieces b"
  "m_board_pieces (fold (castle_step E) cs b) = m_board_pieces b"
  "m_turn (fold (castle_step E) cs b) = m_turn b"
  "m_enpassant_square (fold (castle_step E) cs b) = m_enpassant_square b"
  "m_half_move_clock (fold (castle_step E) cs b) = m_half_move_clock b"
  "m_full_move_clock (fold (castle_step E) cs b) = m_full_move_clock b"
  "hash_core E (fold (castle_step E) cs b) = hash_core E b"
  by (induction cs arbitrary: b; simp add: castle_step_fields)+

lemma castle_fold_rights:
  "m_castling_rights (fold (castle_step E) cs b) side t
     = (m_castling_rights b side t
        \<or> (\<exists>ch \<in> set cs. fen_castle_side ch = side \<and> side \<noteq> NO_SIDE
                \<and> (if isupper ch then WHITE else BLACK) = t))"
  by (induction cs arbitrary: b) (auto simp: castle_step_fields)

lemma castle_chars:
  "fen_castle_side_char KINGSIDE WHITE = CHR ''K''" "fen_castle_side_char QUEENSIDE WHITE = CHR ''Q''"
  "fen_castle_side_char KINGSIDE BLACK = CHR ''k''" "fen_castle_side_char QUEENSIDE BLACK = CHR ''q''"
  "fen_castle_side (CHR ''K'') = KINGSIDE" "fen_castle_side (CHR ''Q'') = QUEENSIDE"
  "fen_castle_side (CHR ''k'') = KINGSIDE" "fen_castle_side (CHR ''q'') = QUEENSIDE"
  "fen_castle_side (CHR ''-'') = NO_SIDE"
  "isupper (CHR ''K'')" "isupper (CHR ''Q'')" "\<not> isupper (CHR ''k'')" "\<not> isupper (CHR ''q'')"
  "\<not> isspace (CHR ''K'')" "\<not> isspace (CHR ''Q'')" "\<not> isspace (CHR ''k'')" "\<not> isspace (CHR ''q'')"
  by code_simp+

lemma castle_field_nospace: "\<forall>c \<in> set (castle_field b). \<not> isspace c"
  by (simp add: castle_field_def Let_def castle_chars space_chars)

lemma castle_field_rights:
  assumes "side = KINGSIDE \<or> side = QUEENSIDE"
  shows "(\<exists>ch \<in> set (castle_field b). fen_castle_side ch = side \<and> side \<noteq> NO_SIDE
                \<and> (if isupper ch then WHITE else BLACK) = t) = m_castling_rights b side t"
proof -
  have s: "set (castle_field b) \<subseteq> {CHR ''K'', CHR ''Q'', CHR ''k'', CHR ''q'', CHR ''-''}"
    by (auto simp: castle_field_def Let_def castle_chars split: if_splits)
  have m: "CHR ''K'' \<in> set (castle_field b) \<longleftrightarrow> m_castling_rights b KINGSIDE WHITE"
      "CHR ''Q'' \<in> set (castle_field b) \<longleftrightarrow> m_castling_rights b QUEENSIDE WHITE"
      "CHR ''k'' \<in> set (castle_field b) \<longleftrightarrow> m_castling_rights b KINGSIDE BLACK"
      "CHR ''q'' \<in> set (castle_field b) \<longleftrightarrow> m_castling_rights b QUEENSIDE BLACK"
    by (auto simp: castle_field_def Let_def castle_chars split: if_splits)
  have "(\<exists>ch \<in> set (castle_field b). fen_castle_side ch = side \<and> side \<noteq> NO_SIDE
                \<and> (if isupper ch then WHITE else BLACK) = t)
      \<longleftrightarrow> (\<exists>ch \<in> {CHR ''K'', CHR ''Q'', CHR ''k'', CHR ''q'', CHR ''-''}. ch \<in> set (castle_field b)
            \<and> fen_castle_side ch = side \<and> side \<noteq> NO_SIDE \<and> (if isupper ch then WHITE else BLACK) = t)"
    using s by blast
  also have "\<dots> \<longleftrightarrow> m_castling_rights b side t"
    using assms by (cases t) (auto simp: castle_chars m)
  finally show ?thesis .
qed

lemma to_fen_shape:
  "to_fen b = fen_ranks b 8 @ (if m_turn b = WHITE then CHR ''w'' else CHR ''b'') # CHR '' '' #
      castle_field b @ CHR '' '' #
      (if m_enpassant_square b = SQUARE_NULL then ''-'' else get_square (m_enpassant_square b))
      @ CHR '' '' # show_int (m_half_move_clock b) @ CHR '' '' # show_int (m_full_move_clock b)"
  by (simp add: to_fen_split castle_field_def Let_def)

lemma fen_field_one: "\<not> isspace c \<Longrightarrow> fen_field (d # c # CHR '' '' # rest) = ([c], CHR '' '' # rest)"
  using fen_field_mid[of "[c]" d rest] by simp

lemma castle_step_eq:
  "(\<lambda>ch b. if fen_castle_side ch \<noteq> NO_SIDE
             then set_castling E True (fen_castle_side ch) (if isupper ch then WHITE else BLACK) b
             else b) = castle_step E"
  by (simp add: castle_step_def fun_eq_iff)

lemma Board_fen_to_fen:
  assumes ok: "\<And>sq t. 0 \<le> sq \<Longrightarrow> sq < 64 \<Longrightarrow> m_board_pieces b sq \<noteq> Pc PIECE_NONE t"
    and ep: "m_enpassant_square b = SQUARE_NULL \<or> 0 \<le> m_enpassant_square b \<and> m_enpassant_square b < 64"
    and h: "0 \<le> m_half_move_clock b" and f: "1 \<le> m_full_move_clock b"
  shows "Board_fen E (to_fen b)
     = update_checkers E
         (let b6 = parsed E b;
              b7 = (if m_turn b6 = BLACK then b6 \<lparr> m_hash := m_hash b6 XOR zobrist_black_move E \<rparr> else b6)
          in if m_enpassant_square b7 \<noteq> SQUARE_NULL
             then b7 \<lparr> m_hash := m_hash b7 XOR zobrist_ep_file E (file_of (m_enpassant_square b7)) \<rparr>
             else b7)"
proof -
  have f0: "0 \<le> m_full_move_clock b" using f by simp
  note ns = show_int_nospace[OF h] show_int_nospace[OF f0] castle_field_nospace[of b]
  have tc: "\<not> isspace (if m_turn b = WHITE then CHR ''w'' else CHR ''b'')" by (simp add: space_chars)
  have tv: "fold (\<lambda>ch t. if ch = CHR ''w'' then WHITE else BLACK)
              [if m_turn b = WHITE then CHR ''w'' else CHR ''b''] WHITE = m_turn b"
    by (cases "m_turn b") simp_all
  have epp: "\<And>r. fen_ep (CHR '' '' # (if m_enpassant_square b = SQUARE_NULL then ''-''
                        else get_square (m_enpassant_square b)) @ CHR '' '' # r) SQUARE_NULL
             = (m_enpassant_square b, CHR '' '' # r)"
  proof -
    fix r
    show "fen_ep (CHR '' '' # (if m_enpassant_square b = SQUARE_NULL then ''-''
                        else get_square (m_enpassant_square b)) @ CHR '' '' # r) SQUARE_NULL
             = (m_enpassant_square b, CHR '' '' # r)"
    proof (cases "m_enpassant_square b = SQUARE_NULL")
      case True
      then show ?thesis using fen_ep_none[of "CHR '' ''" r SQUARE_NULL] by simp
    next
      case False
      then have "0 \<le> m_enpassant_square b" "m_enpassant_square b < 64" using ep by simp_all
      from fen_ep_square[OF this] False show ?thesis by simp
    qed
  qed
  have mx: "max (m_full_move_clock b) 1 = m_full_move_clock b" using f by simp
  define R4 where "R4 = show_int (m_full_move_clock b)"
  define R3 where "R3 = show_int (m_half_move_clock b) @ CHR '' '' # R4"
  define R2 where "R2 = (if m_enpassant_square b = SQUARE_NULL then ''-''
                        else get_square (m_enpassant_square b)) @ CHR '' '' # R3"
  define R1 where "R1 = castle_field b @ CHR '' '' # R2"
  define R0 where "R0 = (if m_turn b = WHITE then CHR ''w'' else CHR ''b'') # CHR '' '' # R1"
  have s0: "to_fen b = fen_ranks b 8 @ R0"
    unfolding to_fen_shape R0_def R1_def R2_def R3_def R4_def ..
  have p0: "fen_placement E (to_fen b) SQUARE_A8 (empty_board E)
      = (fold (place E b) (board_squares 8) (empty_board E), CHR '' '' # R0)"
    unfolding s0 by (rule placement_to_fen[OF ok])
  have p1: "fen_field (CHR '' '' # R0) = ([if m_turn b = WHITE then CHR ''w'' else CHR ''b''], CHR '' '' # R1)"
    unfolding R0_def by (rule fen_field_one[OF tc])
  have p2: "fen_field (CHR '' '' # R1) = (castle_field b, CHR '' '' # R2)"
    unfolding R1_def by (rule fen_field_mid[OF ns(3)])
  have p3: "fen_ep (CHR '' '' # R2) SQUARE_NULL = (m_enpassant_square b, CHR '' '' # R3)"
    unfolding R2_def by (rule epp)
  have p4: "fen_field (CHR '' '' # R3) = (show_int (m_half_move_clock b), CHR '' '' # R4)"
    unfolding R3_def by (rule fen_field_mid[OF ns(1)])
  have p5: "fen_field (CHR '' '' # R4) = (show_int (m_full_move_clock b), [])"
    unfolding R4_def by (rule fen_field_last[OF ns(2)])
  show ?thesis
    unfolding Board_fen_def p0 Let_def split_conv p1 p2 p3 p4 p5 tv castle_step_eq
      fen_number_show_int[OF h] fen_number_show_int[OF f0] mx parsed_def
    by simp
qed

subsection \<open>The round trip\<close>

lemma pieces_of_mailbox:
  assumes a: "mailbox_agrees a" and b: "mailbox_agrees b"
    and eq: "\<And>sq. 0 \<le> sq \<Longrightarrow> sq < 64 \<Longrightarrow> m_board_pieces a sq = m_board_pieces b sq"
    and pt: "pt \<noteq> PIECE_NONE"
  shows "m_pieces a pt t = m_pieces b pt t"
proof (rule bit_eqI)
  fix n
  show "bit (m_pieces a pt t) n = bit (m_pieces b pt t) n"
  proof (cases "n < 64")
    case True
    then have r: "0 \<le> int n" "int n < 64" by simp_all
    have "bb_test (m_pieces a pt t) (int n) = bb_test (m_pieces b pt t) (int n)"
      unfolding agrees_test[OF a r pt] agrees_test[OF b r pt] eq[OF r] ..
    then show ?thesis by (simp add: bb_test_def)
  next
    case False
    then have "\<not> bit (m_pieces a pt t) n" "\<not> bit (m_pieces b pt t) n"
      using bit_imp_le_length[of "m_pieces a pt t" n] bit_imp_le_length[of "m_pieces b pt t" n]
      by auto
    then show ?thesis by simp
  qed
qed

lemma parsed_props:
  assumes ag: "mailbox_agrees b"
  shows "m_turn (parsed E b) = m_turn b"
    and "m_enpassant_square (parsed E b) = m_enpassant_square b"
    and "m_half_move_clock (parsed E b) = m_half_move_clock b"
    and "m_full_move_clock (parsed E b) = m_full_move_clock b"
    and "side = KINGSIDE \<or> side = QUEENSIDE \<Longrightarrow>
           m_castling_rights (parsed E b) side t = m_castling_rights b side t"
    and "pt \<noteq> PIECE_NONE \<Longrightarrow> m_pieces (parsed E b) pt t = m_pieces b pt t"
    and "hash_core E (parsed E b) = 0"
proof -
  let ?b1 = "fold (place E b) (board_squares 8) (empty_board E)"
  let ?b2 = "?b1 \<lparr> m_turn := m_turn b \<rparr>"
  let ?b3 = "fold (castle_step E) (castle_field b) ?b2"
  have ok: "\<And>sq t. 0 \<le> sq \<Longrightarrow> sq < 64 \<Longrightarrow> m_board_pieces b sq \<noteq> Pc PIECE_NONE t"
    using agrees_valid[OF ag] by simp
  have pre: "\<forall>sq \<in> set (board_squares 8). 0 \<le> sq \<and> sq < 64 \<and> m_board_pieces (empty_board E) sq = NO_PIECE"
    unfolding board_squares_all(2) by (simp add: empty_board_def)
  note pf = place_fold_inv[OF ok board_squares_all(1) pre empty_board_inv(1), unfolded board_squares_all(2)]
  have i1: "piece_inv E ?b1" and h1: "hash_core E ?b1 = 0"
    and m1: "\<And>sq. 0 \<le> sq \<Longrightarrow> sq < 64 \<Longrightarrow> m_board_pieces ?b1 sq = m_board_pieces b sq"
    using pf by (simp_all add: empty_board_inv(2))
  show "m_turn (parsed E b) = m_turn b" by (simp add: parsed_def castle_fold_fields)
  show "m_enpassant_square (parsed E b) = m_enpassant_square b" by (simp add: parsed_def)
  show "m_half_move_clock (parsed E b) = m_half_move_clock b" by (simp add: parsed_def)
  show "m_full_move_clock (parsed E b) = m_full_move_clock b" by (simp add: parsed_def)
  show "m_castling_rights (parsed E b) side t = m_castling_rights b side t"
    if "side = KINGSIDE \<or> side = QUEENSIDE"
  proof -
    have "m_castling_rights ?b2 side t = False"
      by (simp add: place_fold_fields empty_board_def)
    then have "m_castling_rights ?b3 side t = m_castling_rights b side t"
      unfolding castle_fold_rights castle_field_rights[OF that] by simp
    then show ?thesis by (simp add: parsed_def)
  qed
  have mp: "m_pieces (parsed E b) = m_pieces ?b1" and mbp: "m_board_pieces (parsed E b) = m_board_pieces ?b1"
    by (simp_all add: parsed_def castle_fold_fields)
  have ag1: "mailbox_agrees ?b1" using i1 by (simp add: piece_inv_def)
  show "m_pieces (parsed E b) pt t = m_pieces b pt t" if "pt \<noteq> PIECE_NONE"
    unfolding mp by (rule pieces_of_mailbox[OF ag1 ag m1 that])
  have "hash_core E ?b2 = hash_core E ?b1" by (rule hash_core_cong) simp_all
  then have h3: "hash_core E ?b3 = 0" by (simp add: castle_fold_fields h1)
  have "hash_core E (parsed E b) = hash_core E ?b3"
    unfolding parsed_def by (rule hash_core_cong) simp_all
  then show "hash_core E (parsed E b) = 0" using h3 by simp
qed

lemma hash_parts_eq:
  assumes "\<And>pt t. pt \<noteq> PIECE_NONE \<Longrightarrow> m_pieces a pt t = m_pieces b pt t"
    and "\<And>side t. side = KINGSIDE \<or> side = QUEENSIDE \<Longrightarrow> m_castling_rights a side t = m_castling_rights b side t"
  shows "piece_hash E a = piece_hash E b" "castle_hash E a = castle_hash E b"
  by (simp_all add: piece_hash_def castle_hash_def all_turn_pieces_def piece_types_def assms)

lemma xor_zero_solve: "(h :: Hash) XOR p XOR c = 0 \<Longrightarrow> h = p XOR c"
  using xor_solve[of h p c 0] by simp

text \<open>
  C3. For every legal board \<open>b\<close> (the mailbox agrees with the piece bitboards, the
  stored hash is \<open>generate_hash()\<close>, the en-passant square is null or on the board, the
  half-move clock is not negative and the full-move clock is at least 1), parsing the
  emitted FEN round-trips: \<open>Board(b.to_fen())\<close> equals \<open>b\<close> under \<open>operator==\<close> (hash, side
  to move, en-passant square, castling rights, piece bitboards), and the two clocks are
  equal as well.
\<close>

theorem fen_round_trip:
  assumes ag: "mailbox_agrees b" and hb: "m_hash b = generate_hash E b"
    and ep: "m_enpassant_square b = SQUARE_NULL \<or> 0 \<le> m_enpassant_square b \<and> m_enpassant_square b < 64"
    and h: "0 \<le> m_half_move_clock b" and f: "1 \<le> m_full_move_clock b"
  shows "board_eq (Board_fen E (to_fen b)) b
       \<and> m_half_move_clock (Board_fen E (to_fen b)) = m_half_move_clock b
       \<and> m_full_move_clock (Board_fen E (to_fen b)) = m_full_move_clock b"
proof -
  let ?p = "parsed E b" let ?r = "Board_fen E (to_fen b)"
  have ok: "\<And>sq t. 0 \<le> sq \<Longrightarrow> sq < 64 \<Longrightarrow> m_board_pieces b sq \<noteq> Pc PIECE_NONE t"
    using agrees_valid[OF ag] by simp
  note e = Board_fen_to_fen[OF ok ep h f, where E = E]
  note pp = parsed_props[OF ag, where E = E]
  have t: "m_turn ?r = m_turn b" and es: "m_enpassant_square ?r = m_enpassant_square b"
    and hc: "m_half_move_clock ?r = m_half_move_clock b"
    and fc: "m_full_move_clock ?r = m_full_move_clock b"
    and cr: "m_castling_rights ?r = m_castling_rights ?p"
    and ps: "m_pieces ?r = m_pieces ?p"
    by (simp_all add: e update_checkers_def Let_def pp(1-4))
  have mh: "m_hash ?r = m_hash ?p XOR state_hash E b"
    by (cases "m_turn b") (simp_all add: e update_checkers_def Let_def pp(1-4) state_hash_def xor.assoc)
  note hp = hash_parts_eq[where a = ?p and b = b and E = E, OF pp(6) pp(5)]
  have "m_hash ?p = piece_hash E ?p XOR castle_hash E ?p"
    by (rule xor_zero_solve) (rule pp(7)[unfolded hash_core_def])
  then have "m_hash ?r = (piece_hash E b XOR castle_hash E b) XOR state_hash E b"
    using hp by (simp add: mh)
  also have "\<dots> = m_hash b"
    unfolding hb generate_hash_parts by (simp add: ac_simps)
  finally have hh: "m_hash ?r = m_hash b" .
  have "board_eq ?r b"
    unfolding board_eq_def by (simp add: hh t es cr ps pp)
  then show ?thesis using hc fc by simp
qed

lemma ep_fen_mailbox: "mailbox_agrees (Board_fen std_env ep_fen)"
  by code_simp

lemma ep_fen_hash:
  "m_hash (Board_fen std_env ep_fen) = generate_hash std_env (Board_fen std_env ep_fen)"
  by code_simp

lemma ep_fen_fields:
  "m_enpassant_square (Board_fen std_env ep_fen) = 20
   \<and> m_half_move_clock (Board_fen std_env ep_fen) = 0
   \<and> m_full_move_clock (Board_fen std_env ep_fen) = 1"
  by code_simp

theorem fen_round_trip_witness:
  "mailbox_agrees (Board_fen std_env ep_fen)
   \<and> m_hash (Board_fen std_env ep_fen) = generate_hash std_env (Board_fen std_env ep_fen)
   \<and> m_enpassant_square (Board_fen std_env ep_fen) = 20
   \<and> m_half_move_clock (Board_fen std_env ep_fen) = 0
   \<and> m_full_move_clock (Board_fen std_env ep_fen) = 1
   \<and> board_eq (Board_fen std_env (to_fen (Board_fen std_env ep_fen))) (Board_fen std_env ep_fen)
   \<and> m_half_move_clock (Board_fen std_env (to_fen (Board_fen std_env ep_fen))) = 0
   \<and> m_full_move_clock (Board_fen std_env (to_fen (Board_fen std_env ep_fen))) = 1"
  using fen_round_trip[of "Board_fen std_env ep_fen" std_env] ep_fen_mailbox ep_fen_hash ep_fen_fields
  by simp

end
